theory Spec2Isabelle
  imports Complex_Main "HOL-Library.Word" "HOL-Library.Monad_Syntax"
begin

unbundle bit_operations_syntax

section \<open>JavaScript strings\<close>

text \<open>
  A JavaScript string is a sequence of UTF-16 code units; \<open>length\<close>, \<open>substring\<close>,
  \<open>startsWith\<close> and the regular expressions of the source all count code units. A code
  unit is modelled as a natural number and a string as a list of them. \<open>js\<close> turns an
  ASCII literal into such a string.
\<close>

type_synonym jschar = nat
type_synonym jsstring = "jschar list"

abbreviation js :: "string \<Rightarrow> jsstring" where
  "js s \<equiv> map of_char s"

section \<open>The WAV encoder (\<open>convertToWav\<close>)\<close>

text \<open>
  \<open>convertToWav\<close> decodes the recorded blob with the platform's \<open>decodeAudioData\<close> and
  serialises the decoded \<open>AudioBuffer\<close>. The decoder is the platform's; the model starts from
  its result. An \<open>AudioBuffer\<close> has \<open>length\<close> frames, \<open>numberOfChannels\<close> channels, a
  \<open>sampleRate\<close>, and one \<open>Float32Array\<close> of \<open>length\<close> samples per channel
  (\<open>getChannelData\<close>).

  Samples are 32-bit floats. Every finite float is a rational number, and the only
  arithmetic the encoder does on a sample is a comparison and one multiplication by
  \<open>32768\<close> or \<open>32767\<close>: a 24-bit significand times a 15-bit integer fits the 53-bit
  significand of a JavaScript number, so the product is exact. Samples are therefore
  modelled as rationals, with exact arithmetic.
\<close>

type_synonym byte = "8 word"

record AudioBuffer =
  length_buf :: nat
  numberOfChannels :: nat
  sampleRate :: nat
  channelData :: "rat list list"

text \<open>
  The two nested \<open>for\<close> loops that fill \<open>interleaved\<close>, a \<open>Float32Array\<close> of
  \<open>length * numberOfChannels\<close> zeros: the outer loop runs over the frames, the inner one over
  the channels, and each iteration stores one sample at index
  \<open>i * numberOfChannels + channel\<close>.
\<close>

definition interleave :: "AudioBuffer \<Rightarrow> rat list" where
  "interleave audioBuffer =
     fold (\<lambda>i interleaved.
        fold (\<lambda>channel interleaved.
            interleaved[i * numberOfChannels audioBuffer + channel :=
                          channelData audioBuffer ! channel ! i])
          [0..<numberOfChannels audioBuffer] interleaved)
       [0..<length_buf audioBuffer]
       (replicate (length_buf audioBuffer * numberOfChannels audioBuffer) 0)"

text \<open>
  The \<open>DataView\<close> setters. Each throws a \<open>RangeError\<close> when the write does not fit the
  buffer (\<open>None\<close> here). \<open>setUint8\<close>, \<open>setUint16\<close> and \<open>setUint32\<close> reduce their argument
  modulo \<open>2^8\<close>, \<open>2^16\<close> and \<open>2^32\<close>; the multi-byte setters are called with
  \<open>littleEndian = true\<close>, so the low byte comes first.
\<close>

definition setUint8 :: "byte list \<Rightarrow> nat \<Rightarrow> nat \<Rightarrow> byte list option" where
  "setUint8 view byteOffset v =
     (if byteOffset + 1 \<le> length view
      then Some (view[byteOffset := of_nat v])
      else None)"

definition setUint16 :: "byte list \<Rightarrow> nat \<Rightarrow> nat \<Rightarrow> byte list option" where
  "setUint16 view byteOffset v =
     (let w = (of_nat v :: 16 word) in
      if byteOffset + 2 \<le> length view
      then Some (view[byteOffset := ucast w, byteOffset + 1 := ucast (drop_bit 8 w)])
      else None)"

definition setUint32 :: "byte list \<Rightarrow> nat \<Rightarrow> nat \<Rightarrow> byte list option" where
  "setUint32 view byteOffset v =
     (let w = (of_nat v :: 32 word) in
      if byteOffset + 4 \<le> length view
      then Some (view[byteOffset := ucast w,
                      byteOffset + 1 := ucast (drop_bit 8 w),
                      byteOffset + 2 := ucast (drop_bit 16 w),
                      byteOffset + 3 := ucast (drop_bit 24 w)])
      else None)"

text \<open>
  \<open>setInt16\<close> converts its argument with \<open>ToInt16\<close>: the number is truncated towards
  zero and reduced modulo \<open>2^16\<close> into the signed 16-bit range (the 16-bit word of the
  truncated integer).
\<close>

definition ToInt16 :: "rat \<Rightarrow> 16 word" where
  "ToInt16 x = word_of_int (if x < 0 then - \<lfloor>- x\<rfloor> else \<lfloor>x\<rfloor>)"

definition setInt16 :: "byte list \<Rightarrow> nat \<Rightarrow> rat \<Rightarrow> byte list option" where
  "setInt16 view byteOffset x =
     (let w = ToInt16 x in
      if byteOffset + 2 \<le> length view
      then Some (view[byteOffset := ucast w, byteOffset + 1 := ucast (drop_bit 8 w)])
      else None)"

text \<open>The local helper \<open>writeString\<close>: one \<open>setUint8\<close> per character code.\<close>

fun writeString :: "byte list \<Rightarrow> nat \<Rightarrow> jsstring \<Rightarrow> byte list option" where
  "writeString view offset [] = Some view"
| "writeString view offset (c # str) =
     do { view' \<leftarrow> setUint8 view offset c; writeString view' (offset + 1) str }"

text \<open>
  The last loop of \<open>convertToWav\<close>: each sample is clamped with
  \<open>Math.max(-1, Math.min(1, x))\<close>, scaled by \<open>0x8000\<close> when negative and by \<open>0x7FFF\<close>
  otherwise, and written with \<open>setInt16\<close> at an offset that advances by two.
\<close>

definition scaleSample :: "rat \<Rightarrow> rat" where
  "scaleSample x =
     (let sample = max (- 1) (min 1 x) in
      if sample < 0 then sample * 32768 else sample * 32767)"

fun writeSamples :: "byte list \<Rightarrow> nat \<Rightarrow> rat list \<Rightarrow> byte list option" where
  "writeSamples view offset [] = Some view"
| "writeSamples view offset (x # interleaved) =
     do { view' \<leftarrow> setInt16 view offset (scaleSample x);
          writeSamples view' (offset + 2) interleaved }"

definition convertToWav :: "AudioBuffer \<Rightarrow> byte list option" where
  "convertToWav audioBuffer =
     (let interleaved = interleave audioBuffer;
          n = length interleaved;
          view = replicate (44 + n * 2) 0
      in do {
        view \<leftarrow> writeString view 0 (js ''RIFF'');
        view \<leftarrow> setUint32 view 4 (36 + n * 2);
        view \<leftarrow> writeString view 8 (js ''WAVE'');
        view \<leftarrow> writeString view 12 (js ''fmt '');
        view \<leftarrow> setUint32 view 16 16;
        view \<leftarrow> setUint16 view 20 1;
        view \<leftarrow> setUint16 view 22 (numberOfChannels audioBuffer);
        view \<leftarrow> setUint32 view 24 (sampleRate audioBuffer);
        view \<leftarrow> setUint32 view 28 (sampleRate audioBuffer * numberOfChannels audioBuffer * 2);
        view \<leftarrow> setUint16 view 32 (numberOfChannels audioBuffer * 2);
        view \<leftarrow> setUint16 view 34 16;
        view \<leftarrow> writeString view 36 (js ''data'');
        view \<leftarrow> setUint32 view 40 (n * 2);
        writeSamples view 44 interleaved
      })"

text \<open>
  Readers for the output, as \<open>DataView.getUint16\<close>, \<open>getUint32\<close> and \<open>getInt16\<close> read
  little-endian fields.
\<close>

definition getUint16 :: "byte list \<Rightarrow> nat \<Rightarrow> nat" where
  "getUint16 view k = unat (view ! k) + 256 * unat (view ! (k + 1))"

definition getUint32 :: "byte list \<Rightarrow> nat \<Rightarrow> nat" where
  "getUint32 view k =
     unat (view ! k) + 256 * unat (view ! (k + 1))
       + 65536 * unat (view ! (k + 2)) + 16777216 * unat (view ! (k + 3))"

definition getInt16 :: "byte list \<Rightarrow> nat \<Rightarrow> int" where
  "getInt16 view k = sint (word_of_nat (getUint16 view k) :: 16 word)"

text \<open>
  The little-endian bytes of a 16-bit and of a 32-bit word, and the two parts of the
  encoder's output in closed form: the 44-byte header and the PCM payload, two bytes per
  interleaved sample.
\<close>

definition bytes16 :: "16 word \<Rightarrow> byte list" where
  "bytes16 w = [ucast w, ucast (drop_bit 8 w)]"

definition bytes32 :: "32 word \<Rightarrow> byte list" where
  "bytes32 w = [ucast w, ucast (drop_bit 8 w), ucast (drop_bit 16 w), ucast (drop_bit 24 w)]"

definition wavHeader :: "AudioBuffer \<Rightarrow> byte list" where
  "wavHeader b =
     map of_nat (js ''RIFF'') @
     bytes32 (of_nat (36 + length (interleave b) * 2)) @
     map of_nat (js ''WAVE'') @
     map of_nat (js ''fmt '') @
     bytes32 (of_nat 16) @
     bytes16 (of_nat 1) @
     bytes16 (of_nat (numberOfChannels b)) @
     bytes32 (of_nat (sampleRate b)) @
     bytes32 (of_nat (sampleRate b * numberOfChannels b * 2)) @
     bytes16 (of_nat (numberOfChannels b * 2)) @
     bytes16 (of_nat 16) @
     map of_nat (js ''data'') @
     bytes32 (of_nat (length (interleave b) * 2))"

definition pcmPayload :: "AudioBuffer \<Rightarrow> byte list" where
  "pcmPayload b = concat (map (\<lambda>x. bytes16 (ToInt16 (scaleSample x))) (interleave b))"

text \<open>
  What the platform guarantees of a decoded buffer: one sample array per channel, each of
  \<open>length\<close> samples (\<open>wellFormed\<close>). \<open>fitsWav\<close> says that every header field fits its
  width: the block align in 16 bits, the sample rate, the byte rate and the total size in
  32 bits. Web Audio buffers have at most a few dozen channels and sample rates below one
  megahertz, so only the size bound excludes anything: buffers of four gigabytes or more.
\<close>

definition wellFormed :: "AudioBuffer \<Rightarrow> bool" where
  "wellFormed b \<longleftrightarrow>
     length (channelData b) = numberOfChannels b \<and>
     (\<forall>ch \<in> set (channelData b). length ch = length_buf b)"

definition fitsWav :: "AudioBuffer \<Rightarrow> bool" where
  "fitsWav b \<longleftrightarrow>
     numberOfChannels b * 2 < 2 ^ 16 \<and>
     sampleRate b < 2 ^ 32 \<and>
     sampleRate b * numberOfChannels b * 2 < 2 ^ 32 \<and>
     44 + 2 * length_buf b * numberOfChannels b < 2 ^ 32"

text \<open>
  The quantisation in the specification's words: clamp the sample to \<open>[-1, 1]\<close>, scale a
  negative value by \<open>32768\<close> and any other by \<open>32767\<close>, and drop the fraction (towards
  zero).
\<close>

definition quantize :: "rat \<Rightarrow> int" where
  "quantize x =
     (let clamped = (if x < - 1 then - 1 else if 1 < x then 1 else x);
          scaled = (if clamped < 0 then clamped * 32768 else clamped * 32767)
      in if scaled < 0 then - \<lfloor>- scaled\<rfloor> else \<lfloor>scaled\<rfloor>)"

text \<open>A two-frame stereo buffer, with samples inside and outside \<open>[-1, 1]\<close>.\<close>

definition exampleBuffer :: AudioBuffer where
  "exampleBuffer =
     \<lparr>length_buf = 2, numberOfChannels = 2, sampleRate = 48000,
      channelData = [[1 / 2, - 3 / 2], [- 1 / 2, 2]]\<rparr>"

section \<open>Title derivation (\<open>updateNoteTitle\<close>)\<close>

text \<open>
  The string functions the source uses. \<open>isWhiteSpace\<close> is the set of code units that
  \<open>String.prototype.trim\<close> removes and that \<open>\s\<close> matches in a regular expression: tab, line
  feed, vertical tab, form feed, carriage return, space, no-break space, the Unicode space
  separators, the line and paragraph separators and the byte order mark.
\<close>

definition isWhiteSpace :: "jschar \<Rightarrow> bool" where
  "isWhiteSpace c \<longleftrightarrow>
     (9 \<le> c \<and> c \<le> 13) \<or> c = 32 \<or> c = 160 \<or> c = 5760 \<or> (8192 \<le> c \<and> c \<le> 8202) \<or>
     c = 8232 \<or> c = 8233 \<or> c = 8239 \<or> c = 8287 \<or> c = 12288 \<or> c = 65279"

definition trim :: "jsstring \<Rightarrow> jsstring" where
  "trim s = rev (dropWhile isWhiteSpace (rev (dropWhile isWhiteSpace s)))"

text \<open>\<open>s.split('\n')\<close>: the pieces between line feeds; the empty string gives one empty piece.\<close>

fun split_lines :: "jsstring \<Rightarrow> jsstring list" where
  "split_lines [] = [[]]"
| "split_lines (c # cs) =
     (if c = 10 then [] # split_lines cs
      else (case split_lines cs of [] \<Rightarrow> [[c]] | l # ls \<Rightarrow> (c # l) # ls))"

text \<open>\<open>line.startsWith('#')\<close>; the number sign is code unit 35.\<close>

fun startsWithHash :: "jsstring \<Rightarrow> bool" where
  "startsWithHash [] = False"
| "startsWithHash (c # cs) = (c = 35)"

text \<open>
  \<open>line.replace(/^#+\s+/, '')\<close>: when the line starts with one or more number signs
  followed by one or more white-space characters, both runs are removed (the quantifiers are
  greedy, and giving back a number sign cannot make \<open>\s+\<close> match); otherwise the line is
  unchanged.
\<close>

definition replaceHeadingMarker :: "jsstring \<Rightarrow> jsstring" where
  "replaceHeadingMarker line =
     (let afterHashes = dropWhile (\<lambda>c. c = 35) line in
      if takeWhile (\<lambda>c. c = 35) line \<noteq> [] \<and> takeWhile isWhiteSpace afterHashes \<noteq> []
      then dropWhile isWhiteSpace afterHashes
      else line)"

text \<open>
  The character class of \<open>/^[\*_\`#\->\s\[\]\(.\d)]+/\<close>: asterisk, underscore, backquote,
  number sign, hyphen, greater-than, white space, square brackets, parentheses, full stop
  and the decimal digits. Replacing the match by the empty string removes the leading run
  of such characters.
\<close>

definition isLeadingMarker :: "jschar \<Rightarrow> bool" where
  "isLeadingMarker c \<longleftrightarrow>
     c = 42 \<or> c = 95 \<or> c = 96 \<or> c = 35 \<or> c = 45 \<or> c = 62 \<or> isWhiteSpace c \<or>
     c = 91 \<or> c = 93 \<or> c = 40 \<or> c = 46 \<or> (48 \<le> c \<and> c \<le> 57) \<or> c = 41"

text \<open>
  The character class of \<open>/[\*_\`#]+$/\<close>: asterisk, underscore, backquote and number sign.
  The first match is the maximal run of such characters that ends the string.
\<close>

definition isTrailingMarker :: "jschar \<Rightarrow> bool" where
  "isTrailingMarker c \<longleftrightarrow> c = 42 \<or> c = 95 \<or> c = 96 \<or> c = 35"

definition potentialTitle :: "jsstring \<Rightarrow> jsstring" where
  "potentialTitle line =
     trim (rev (dropWhile isTrailingMarker (rev (dropWhile isLeadingMarker line))))"

text \<open>
  The first loop of \<open>updateNoteTitle\<close>, over the trimmed lines: a line that starts with a
  number sign gives the title when what is left of it is not empty, and the loop breaks.
  The result is the title set, or \<open>None\<close> when the loop ends with \<open>titleSet\<close> still false.
\<close>

fun headingLoop :: "jsstring list \<Rightarrow> jsstring option" where
  "headingLoop [] = None"
| "headingLoop (line # lines) =
     (if startsWithHash line
      then (let title = trim (replaceHeadingMarker line) in
            if title \<noteq> [] then Some title else headingLoop lines)
      else headingLoop lines)"

text \<open>
  The second loop, run when the first set no title: the first non-empty line whose
  \<open>potentialTitle\<close> is longer than three code units gives the title, cut to 60 code units
  (\<open>substring(0, 60)\<close>) and followed by three full stops when it was longer.
\<close>

fun fallbackLoop :: "jsstring list \<Rightarrow> jsstring option" where
  "fallbackLoop [] = None"
| "fallbackLoop (line # lines) =
     (if length line > 0
      then (let t = potentialTitle line in
            if length t > 3
            then Some (take 60 t @ (if length t > 60 then js ''...'' else []))
            else fallbackLoop lines)
      else fallbackLoop lines)"

definition derivedTitle :: "jsstring \<Rightarrow> jsstring option" where
  "derivedTitle polishedText =
     (let lines = map trim (split_lines polishedText) in
      case headingLoop lines of
        Some title \<Rightarrow> Some title
      | None \<Rightarrow> fallbackLoop lines)"

text \<open>
  The title element of the page. Of a DOM element the model keeps the text, the
  \<open>placeholder\<close> attribute and whether the class \<open>placeholder-active\<close> is set.
  \<open>setPlaceholder\<close> is the source's helper for an element that is not the polished note.
\<close>

record Element =
  textContent :: jsstring
  placeholder :: jsstring
  placeholderActive :: bool

definition setPlaceholder :: "Element option \<Rightarrow> bool \<Rightarrow> Element option" where
  "setPlaceholder element showPlaceholder =
     (case element of
        None \<Rightarrow> None
      | Some el \<Rightarrow>
          if showPlaceholder
          then Some (el\<lparr>textContent := placeholder el, placeholderActive := True\<rparr>)
          else Some (el\<lparr>placeholderActive := False\<rparr>))"

definition updateNoteTitle_el :: "jsstring \<Rightarrow> Element option \<Rightarrow> Element option" where
  "updateNoteTitle_el polishedText editorTitle =
     (case editorTitle of
        None \<Rightarrow> None
      | Some el \<Rightarrow>
          (case derivedTitle polishedText of
             Some title \<Rightarrow> setPlaceholder (Some (el\<lparr>textContent := title\<rparr>)) False
           | None \<Rightarrow> setPlaceholder (Some el) True))"

text \<open>
  The title policy as the specification words it: the first line that begins with a number
  sign gives the title, the marker stripped and the rest trimmed; otherwise the first
  non-empty line, with its leading markers stripped, gives the title if it is longer than
  three characters, cut to 60 characters with an ellipsis; otherwise there is no title.
\<close>

definition specTitle :: "jsstring \<Rightarrow> jsstring option" where
  "specTitle polishedText =
     (let lines = map trim (split_lines polishedText) in
      case find startsWithHash lines of
        Some line \<Rightarrow> Some (trim (dropWhile (\<lambda>c. c = 35) line))
      | None \<Rightarrow>
          (case find (\<lambda>line. line \<noteq> []) lines of
             None \<Rightarrow> None
           | Some line \<Rightarrow>
               (let t = dropWhile isLeadingMarker line in
                if length t > 3
                then Some (take 60 t @ (if length t > 60 then js ''...'' else []))
                else None)))"

text \<open>
  The policy the code implements, stated without loops: the first line that begins with a
  number sign always gives the title; with no such line, the first line whose
  \<open>potentialTitle\<close> is longer than three code units does.
\<close>

definition codeTitle :: "jsstring \<Rightarrow> jsstring option" where
  "codeTitle polishedText =
     (let lines = map trim (split_lines polishedText) in
      case find startsWithHash lines of
        Some line \<Rightarrow> Some (trim (replaceHeadingMarker line))
      | None \<Rightarrow>
          (case find (\<lambda>line. length (potentialTitle line) > 3) lines of
             None \<Rightarrow> None
           | Some line \<Rightarrow>
               Some (take 60 (potentialTitle line) @
                     (if length (potentialTitle line) > 60 then js ''...'' else []))))"

section \<open>The recording session (class \<open>VoiceNotesApp\<close>)\<close>

text \<open>
  The application is a single object whose methods run on the browser's event loop. The
  model is a record of the object's fields and one function per method. An \<open>async\<close> method
  is cut at the \<open>await\<close>s where other handlers can run: each piece is a function of its own
  (\<open>_begin\<close>, \<open>_resume\<close>, \<open>_finally\<close> and the like), and the environment decides when the
  next piece runs and with which reply. Pieces that are only separated by microtasks are
  kept together, since no other handler can run between them.

  What the browser does is not in the repository; the model assumes the following of it.
  \<^item> A \<open>MediaRecorder\<close> is \<open>inactive\<close> or \<open>recording\<close>, and changes state only when the
    application calls \<open>start\<close> or \<open>stop\<close>. \<open>start\<close> throws on a recorder that is not
    inactive; failures of the capture device are not modelled.
  \<^item> \<open>stop\<close> makes the recorder inactive at once and queues one task that fires
    \<open>dataavailable\<close> with the recorded blob and then \<open>stop\<close>. The recorders are started without
    a time slice, so this is the only \<open>dataavailable\<close> event of a recording.
  \<^item> A \<open>Blob\<close> is represented by its size in bytes, a \<open>MediaStream\<close> by its number of audio
    tracks, \<open>Date.now()\<close> by a number the environment supplies.
  The DOM is left out, except for the title element. The text of the status line, the
  waveform display and the two timers of the live display are not modelled.
\<close>

datatype RecorderType = primary | secondary

datatype RecordingState = inactive | recording

datatype MediaStream = MediaStream (audioTracks: nat)

record AudioSegment =
  blob :: nat
  startTime :: nat
  endTime :: nat
  segmentNumber :: nat

record Note =
  note_id :: nat
  rawTranscription :: jsstring
  polishedNote :: jsstring
  timestamp :: nat

text \<open>
  Bookkeeping that the code does not hold in fields but that its behaviour depends on: the
  segments whose processing has started and not ended (with the remote call each waits
  for), and a log of the calls that leave the object.
\<close>

datatype ProcessingPhase = Transcribing | Polishing

datatype Effect =
    RecorderStarted RecorderType
  | RecorderStopRequested RecorderType
  | SegmentEnqueued AudioSegment
  | ProcessNextSegmentCalled
  | TranscriptionRequested nat
  | PolishRequested jsstring

record VoiceNotesApp =
  primaryRecorder :: "RecordingState option"
  secondaryRecorder :: "RecordingState option"
  activeRecorder :: RecorderType
  editorTitle :: "Element option"
  primaryAudioChunks :: "nat list"
  secondaryAudioChunks :: "nat list"
  isRecording :: bool
  isContinuousMode :: bool
  currentNote :: "Note option"
  openingTags :: jsstring
  closingTags :: jsstring
  segmentCount :: nat
  accumulatedTranscription :: jsstring
  accumulatedPolishedNote :: jsstring
  processingQueue :: "AudioSegment list"
  isProcessingSegment :: bool
  stream :: "MediaStream option"
  screenStream :: "MediaStream option"
  micStream :: "MediaStream option"
  segmentIntervalId :: bool
  segmentStartTime :: nat
  pendingFlushes :: "RecorderType list"
  pendingStarts :: nat
  pendingStops :: nat
  scheduledDrains :: nat
  inFlight :: "(AudioSegment \<times> ProcessingPhase) list"
  effects :: "Effect list"

text \<open>
  \<open>segmentIntervalId\<close> is true while the segment timer is installed. \<open>pendingFlushes\<close> lists
  the recorders that were stopped and whose \<open>dataavailable\<close>/\<open>stop\<close> task has not run yet;
  \<open>pendingStarts\<close> and \<open>pendingStops\<close> count the calls of \<open>startContinuousRecording\<close> and
  \<open>stopContinuousRecording\<close> that are suspended at an \<open>await\<close>; \<open>scheduledDrains\<close> counts the
  pending \<open>setTimeout\<close> callbacks of \<open>processNextSegment\<close>.
\<close>

subsection \<open>The two recorder slots\<close>

definition getRecorder :: "RecorderType \<Rightarrow> VoiceNotesApp \<Rightarrow> RecordingState option" where
  "getRecorder type s = (case type of primary \<Rightarrow> primaryRecorder s | secondary \<Rightarrow> secondaryRecorder s)"

definition setRecorder :: "RecorderType \<Rightarrow> RecordingState option \<Rightarrow> VoiceNotesApp \<Rightarrow> VoiceNotesApp" where
  "setRecorder type r s =
     (case type of primary \<Rightarrow> s\<lparr>primaryRecorder := r\<rparr> | secondary \<Rightarrow> s\<lparr>secondaryRecorder := r\<rparr>)"

definition otherRecorder :: "RecorderType \<Rightarrow> RecorderType" where
  "otherRecorder type = (case type of primary \<Rightarrow> secondary | secondary \<Rightarrow> primary)"

definition capturing :: "RecorderType \<Rightarrow> VoiceNotesApp \<Rightarrow> bool" where
  "capturing type s \<longleftrightarrow> getRecorder type s = Some recording"

text \<open>
  \<open>recorder.stop()\<close> and \<open>recorder.start()\<close> as the platform performs them. \<open>startRecorder\<close>
  is \<open>None\<close> when the call throws.
\<close>

definition stopRecorder :: "RecorderType \<Rightarrow> VoiceNotesApp \<Rightarrow> VoiceNotesApp" where
  "stopRecorder type s =
     (setRecorder type (Some inactive) s)
       \<lparr>pendingFlushes := pendingFlushes s @ [type],
        effects := effects s @ [RecorderStopRequested type]\<rparr>"

definition startRecorder :: "RecorderType \<Rightarrow> VoiceNotesApp \<Rightarrow> VoiceNotesApp option" where
  "startRecorder type s =
     (if getRecorder type s = Some inactive
      then Some ((setRecorder type (Some recording) s)\<lparr>effects := effects s @ [RecorderStarted type]\<rparr>)
      else None)"

subsection \<open>Clean-up helpers\<close>

definition cleanupStreams :: "VoiceNotesApp \<Rightarrow> VoiceNotesApp" where
  "cleanupStreams s = s\<lparr>stream := None, screenStream := None, micStream := None\<rparr>"

definition cleanupAnimations :: "VoiceNotesApp \<Rightarrow> VoiceNotesApp" where
  "cleanupAnimations s = s\<lparr>segmentIntervalId := False\<rparr>"

text \<open>\<open>stopLiveDisplay\<close> resets the display and calls \<open>cleanupAnimations\<close>.\<close>

definition stopLiveDisplay :: "VoiceNotesApp \<Rightarrow> VoiceNotesApp" where
  "stopLiveDisplay s = cleanupAnimations s"

definition setupAudioTags :: "bool \<Rightarrow> bool \<Rightarrow> VoiceNotesApp \<Rightarrow> VoiceNotesApp" where
  "setupAudioTags hasTabAudio hasMicAudio s =
     (if hasTabAudio \<and> hasMicAudio
      then s\<lparr>openingTags := js ''[REUNI'' @ [195] @ js ''O][EU]'',
             closingTags := js ''[/REUNI'' @ [195] @ js ''O][/EU]''\<rparr>
      else if hasTabAudio
      then s\<lparr>openingTags := js ''[REUNI'' @ [195] @ js ''O]'',
             closingTags := js ''[/REUNI'' @ [195] @ js ''O]''\<rparr>
      else if hasMicAudio
      then s\<lparr>openingTags := js ''[EU]'', closingTags := js ''[/EU]''\<rparr>
      else s\<lparr>openingTags := [], closingTags := []\<rparr>)"

subsection \<open>The segment queue\<close>

text \<open>
  \<open>processNextSegment\<close> up to its \<open>await\<close>: the guard, the flag, and the \<open>shift\<close> of the
  queue's head, which is then in flight.
\<close>

definition processNextSegment_begin :: "VoiceNotesApp \<Rightarrow> VoiceNotesApp" where
  "processNextSegment_begin s0 =
     (let s = s0\<lparr>effects := effects s0 @ [ProcessNextSegmentCalled]\<rparr> in
      if isProcessingSegment s \<or> length (processingQueue s) = 0 then s
      else s\<lparr>isProcessingSegment := True,
             processingQueue := tl (processingQueue s),
             inFlight := inFlight s @ [(hd (processingQueue s), Transcribing)]\<rparr>)"

text \<open>
  The \<open>finally\<close> block of \<open>processNextSegment\<close>: the flag is released and, when segments are
  queued, a call of \<open>processNextSegment\<close> is scheduled with \<open>setTimeout\<close>.
\<close>

definition processNextSegment_finally :: "VoiceNotesApp \<Rightarrow> VoiceNotesApp" where
  "processNextSegment_finally s0 =
     (let s = s0\<lparr>isProcessingSegment := False\<rparr> in
      if length (processingQueue s) > 0 then s\<lparr>scheduledDrains := scheduledDrains s + 1\<rparr> else s)"

subsection \<open>The recorder event handlers (\<open>setupRecorderEvents\<close>)\<close>

definition ondataavailable :: "RecorderType \<Rightarrow> nat \<Rightarrow> VoiceNotesApp \<Rightarrow> VoiceNotesApp" where
  "ondataavailable type dataSize s =
     (if dataSize > 0
      then (case type of
              primary \<Rightarrow> s\<lparr>primaryAudioChunks := primaryAudioChunks s @ [dataSize]\<rparr>
            | secondary \<Rightarrow> s\<lparr>secondaryAudioChunks := secondaryAudioChunks s @ [dataSize]\<rparr>)
      else s)"

definition onstop :: "RecorderType \<Rightarrow> nat \<Rightarrow> VoiceNotesApp \<Rightarrow> VoiceNotesApp" where
  "onstop type now s =
     (let chunks = (case type of primary \<Rightarrow> primaryAudioChunks s | secondary \<Rightarrow> secondaryAudioChunks s) in
      if length chunks > 0
      then (let segment = \<lparr>blob = sum_list chunks, startTime = segmentStartTime s, endTime = now,
                            segmentNumber = segmentCount s + 1\<rparr>;
                s1 = s\<lparr>processingQueue := processingQueue s @ [segment],
                       effects := effects s @ [SegmentEnqueued segment]\<rparr>;
                s2 = processNextSegment_begin s1
            in (case type of
                  primary \<Rightarrow> s2\<lparr>primaryAudioChunks := []\<rparr>
                | secondary \<Rightarrow> s2\<lparr>secondaryAudioChunks := []\<rparr>))
      else s)"

subsection \<open>Starting, rotating and stopping\<close>

text \<open>
  \<open>startContinuousRecording\<close> up to \<open>await this.setupStreams()\<close>; \<open>setupStreams\<close> itself starts
  with \<open>cleanupStreams\<close>.
\<close>

definition startContinuousRecording_begin :: "VoiceNotesApp \<Rightarrow> VoiceNotesApp" where
  "startContinuousRecording_begin s =
     cleanupStreams
       (s\<lparr>isContinuousMode := True, segmentCount := 1,
          accumulatedTranscription := [], accumulatedPolishedNote := [],
          processingQueue := [], isProcessingSegment := False,
          pendingStarts := pendingStarts s + 1\<rparr>)"

definition handleRecordingError :: "VoiceNotesApp \<Rightarrow> VoiceNotesApp" where
  "handleRecordingError s =
     stopLiveDisplay (cleanupStreams (s\<lparr>isRecording := False, isContinuousMode := False\<rparr>))"

text \<open>
  \<open>setupFinalStream\<close>: the merged stream (one audio track from the mixing node), the
  microphone stream itself, or an error (\<open>None\<close>) when there is no audio at all.
\<close>

definition setupFinalStream :: "bool \<Rightarrow> bool \<Rightarrow> VoiceNotesApp \<Rightarrow> MediaStream option" where
  "setupFinalStream hasTabAudio hasMicAudio s =
     (if hasTabAudio \<and> hasMicAudio then Some (MediaStream 1)
      else if hasMicAudio then micStream s
      else if hasTabAudio then Some (MediaStream 1)
      else None)"

definition setupSegmentTimer :: "VoiceNotesApp \<Rightarrow> VoiceNotesApp" where
  "setupSegmentTimer s = s\<lparr>segmentIntervalId := True\<rparr>"

text \<open>
  \<open>startDualRecording\<close>, with \<open>setupDualMediaRecorders\<close> inlined: both slots get a new,
  inactive recorder, and the primary one is started.
\<close>

definition startDualRecording :: "nat \<Rightarrow> VoiceNotesApp \<Rightarrow> VoiceNotesApp option" where
  "startDualRecording now s =
     (let s1 = s\<lparr>primaryAudioChunks := [], secondaryAudioChunks := [],
                  primaryRecorder := Some inactive, secondaryRecorder := Some inactive,
                  activeRecorder := primary\<rparr>
      in case startRecorder primary s1 of
           None \<Rightarrow> None
         | Some s2 \<Rightarrow> Some (s2\<lparr>segmentStartTime := now, isRecording := True\<rparr>))"

text \<open>
  The rest of \<open>startContinuousRecording\<close>, when \<open>captureAudioStreams\<close> has delivered the
  screen stream (or none) and the microphone stream. An exception in it is caught by the
  method's own \<open>catch\<close>.
\<close>

definition startContinuousRecording_resume ::
    "MediaStream option \<Rightarrow> MediaStream \<Rightarrow> nat \<Rightarrow> VoiceNotesApp \<Rightarrow> VoiceNotesApp" where
  "startContinuousRecording_resume screen mic now s =
     (let s1 = s\<lparr>screenStream := screen, micStream := Some mic, pendingStarts := pendingStarts s - 1\<rparr>;
          hasTabAudio = (case screen of None \<Rightarrow> False | Some m \<Rightarrow> audioTracks m > 0);
          hasMicAudio = (audioTracks mic > 0);
          s2 = setupAudioTags hasTabAudio hasMicAudio s1
      in case setupFinalStream hasTabAudio hasMicAudio s2 of
           None \<Rightarrow> handleRecordingError (s2\<lparr>isContinuousMode := False\<rparr>)
         | Some final \<Rightarrow>
             (case startDualRecording now (s2\<lparr>stream := Some final\<rparr>) of
                None \<Rightarrow> handleRecordingError (s2\<lparr>stream := Some final, isContinuousMode := False\<rparr>)
              | Some s3 \<Rightarrow> if isRecording s3 then setupSegmentTimer s3 else s3))"

text \<open>The \<open>catch\<close> of \<open>startContinuousRecording\<close> when \<open>setupStreams\<close> rejects.\<close>

definition startContinuousRecording_failed :: "VoiceNotesApp \<Rightarrow> VoiceNotesApp" where
  "startContinuousRecording_failed s =
     handleRecordingError (s\<lparr>isContinuousMode := False, pendingStarts := pendingStarts s - 1\<rparr>)"

text \<open>
  \<open>switchRecorders\<close>. Its \<open>try\<close> block stops the current recorder, flips \<open>activeRecorder\<close>,
  stamps the segment start and starts the next recorder; were \<open>start\<close> to throw, the
  \<open>catch\<close> would only log, leaving the state as it is at that point.
\<close>

definition switchRecorders :: "nat \<Rightarrow> VoiceNotesApp \<Rightarrow> VoiceNotesApp" where
  "switchRecorders now s =
     (if \<not> isContinuousMode s \<or> \<not> isRecording s then s
      else if getRecorder (activeRecorder s) s = None \<or> getRecorder (otherRecorder (activeRecorder s)) s = None
      then s
      else
        (let s1 = (if capturing (activeRecorder s) s then stopRecorder (activeRecorder s) s else s);
             s2 = s1\<lparr>activeRecorder := otherRecorder (activeRecorder s), segmentStartTime := now\<rparr>
         in case startRecorder (otherRecorder (activeRecorder s)) s2 of
              None \<Rightarrow> s2
            | Some s3 \<Rightarrow> s3))"

text \<open>The callback of the segment timer (\<open>setupSegmentTimer\<close>).\<close>

definition segmentTimerCallback :: "nat \<Rightarrow> VoiceNotesApp \<Rightarrow> VoiceNotesApp" where
  "segmentTimerCallback now s =
     (if isContinuousMode s \<and> isRecording s then switchRecorders now s else s)"

definition stopDualRecording :: "VoiceNotesApp \<Rightarrow> VoiceNotesApp" where
  "stopDualRecording s =
     (let s1 = (if capturing primary s then stopRecorder primary s else s);
          s2 = (if capturing secondary s1 then stopRecorder secondary s1 else s1)
      in stopLiveDisplay (s2\<lparr>isRecording := False\<rparr>))"

text \<open>
  \<open>finalizeContinuousRecording\<close> before its loop, and \<open>stopContinuousRecording\<close> up to the
  first \<open>await\<close> inside that loop. When nothing is recording, \<open>stopContinuousRecording\<close>
  runs through.
\<close>

definition finalizeContinuousRecording_begin :: "VoiceNotesApp \<Rightarrow> VoiceNotesApp" where
  "finalizeContinuousRecording_begin s =
     (if capturing (activeRecorder s) s then stopRecorder (activeRecorder s) s else s)"

definition stopContinuousRecording_end :: "VoiceNotesApp \<Rightarrow> VoiceNotesApp" where
  "stopContinuousRecording_end s = cleanupStreams (stopDualRecording s)"

definition stopContinuousRecording_begin :: "VoiceNotesApp \<Rightarrow> VoiceNotesApp" where
  "stopContinuousRecording_begin s =
     (let s1 = cleanupAnimations (s\<lparr>isContinuousMode := False\<rparr>) in
      if isRecording s1
      then (finalizeContinuousRecording_begin s1)\<lparr>pendingStops := pendingStops s1 + 1\<rparr>
      else stopContinuousRecording_end s1)"

definition toggleRecording :: "VoiceNotesApp \<Rightarrow> VoiceNotesApp" where
  "toggleRecording s =
     (if \<not> isRecording s then startContinuousRecording_begin s else stopContinuousRecording_begin s)"

text \<open>
  The loop of \<open>finalizeContinuousRecording\<close> as a whole. Between two tests of its condition
  the method sleeps for 200 ms and other handlers run: \<open>env k s\<close> is the state they leave
  at the end of sleep number \<open>k\<close>. The result is the number of sleeps and the final state.
\<close>

function waitForQueue ::
    "(nat \<Rightarrow> VoiceNotesApp \<Rightarrow> VoiceNotesApp) \<Rightarrow> nat \<Rightarrow> VoiceNotesApp \<Rightarrow> nat \<times> VoiceNotesApp" where
  "waitForQueue env attempts s =
     (if (length (processingQueue s) > 0 \<or> isProcessingSegment s) \<and> attempts < 50
      then waitForQueue env (attempts + 1) (env attempts s)
      else (attempts, s))"
  by pat_completeness auto
termination
  by (relation "measure (\<lambda>(env, attempts, s). 50 - attempts)") auto

declare waitForQueue.simps [simp del]

definition finalizeContinuousRecording ::
    "(nat \<Rightarrow> VoiceNotesApp \<Rightarrow> VoiceNotesApp) \<Rightarrow> VoiceNotesApp \<Rightarrow> nat \<times> VoiceNotesApp" where
  "finalizeContinuousRecording env s = waitForQueue env 0 (finalizeContinuousRecording_begin s)"

definition stopContinuousRecording ::
    "(nat \<Rightarrow> VoiceNotesApp \<Rightarrow> VoiceNotesApp) \<Rightarrow> VoiceNotesApp \<Rightarrow> nat \<times> VoiceNotesApp" where
  "stopContinuousRecording env s =
     (let s1 = cleanupAnimations (s\<lparr>isContinuousMode := False\<rparr>);
          (sleeps, s2) = (if isRecording s1 then finalizeContinuousRecording env s1 else (0, s1))
      in (sleeps, cleanupStreams (stopDualRecording s2)))"

subsection \<open>Processing one segment\<close>

text \<open>
  The replies of the environment while one segment is processed: the decoded audio
  (\<open>None\<close> when \<open>decodeAudioData\<close> rejects), the base64 text of the WAV blob, the reply of the
  transcription call, whether \<open>hasValidContent\<close> holds of the raw-transcript element when
  it is asked, and the reply of the refinement call. A reply is a rejected promise or a
  response, whose \<open>text\<close> may be absent.
\<close>

datatype 'a Promise = Rejected | Resolved 'a

record Replies =
  decoded :: "AudioBuffer option"
  base64Audio :: jsstring
  transcriptionReply :: "jsstring option Promise"
  rawContentValid :: bool
  polishReply :: "jsstring option Promise"

datatype ProcessingError = DecodeError | RangeError | Base64Error | TranscriptionError

datatype Outcome = Threw ProcessingError | Finished VoiceNotesApp | AwaitingPolish VoiceNotesApp

text \<open>Decimal digits of a number, as a template literal prints it.\<close>

fun showNat :: "nat \<Rightarrow> jsstring" where
  "showNat n = (if n < 10 then [48 + n] else showNat (n div 10) @ [48 + n mod 10])"

declare showNat.simps [simp del]

definition segmentHeader :: "nat \<Rightarrow> jsstring" where
  "segmentHeader n = [10, 10] @ js ''=== SEGMENTO '' @ showNat n @ js '' ==='' @ [10]"

definition addAudioTags :: "jsstring \<Rightarrow> VoiceNotesApp \<Rightarrow> jsstring" where
  "addAudioTags transcription s =
     (if openingTags s = [] \<and> closingTags s = [] then transcription
      else openingTags s @ transcription @ js '' '' @ closingTags s)"

definition polishPrompt :: "jsstring \<Rightarrow> jsstring" where
  "polishPrompt transcript =
     js ''Pegue nesta transcri'' @
     [231, 227] @
     js ''o bruta e crie uma nota bem formatada e melhorada.'' @
     [10] @
     js ''                    Remova palavras de preenchimento (hum, a'' @
     js ''h, tipo), repeti'' @
     [231, 245] @
     js ''es e falsos come'' @
     [231] @
     js ''os.'' @
     [10] @
     js ''                    Formate corretamente quaisquer listas ou'' @
     js '' marcadores. Use formata'' @
     [231, 227] @
     js ''o markdown para t'' @
     [237] @
     js ''tulos, listas, etc.'' @
     [10] @
     js ''                    Mantenha todo o conte'' @
     [250] @
     js ''do e significado original.'' @
     [10] @
     js ''                    Esta '' @
     [233] @
     js '' uma transcri'' @
     [231, 227] @
     js ''o de m'' @
     [250] @
     js ''ltiplos segmentos de uma reuni'' @
     [227] @
     js ''o cont'' @
     [237] @
     js ''nua.'' @
     [10, 10] @
     js ''                    Transcri'' @
     [231, 227] @
     js ''o bruta:'' @
     [10] @
     js ''                    '' @
     transcript"

text \<open>
  \<open>getPolishedNote\<close> up to its remote call: without valid content in the raw-transcript
  element it returns at once; otherwise it sends the prompt built from the whole
  accumulated transcript.
\<close>

definition getPolishedNote_request :: "Replies \<Rightarrow> VoiceNotesApp \<Rightarrow> Outcome" where
  "getPolishedNote_request r s =
     (if \<not> rawContentValid r then Finished s
      else AwaitingPolish
             (s\<lparr>effects := effects s @ [PolishRequested (polishPrompt (accumulatedTranscription s))]\<rparr>))"

text \<open>
  \<open>getPolishedNote\<close> after its remote call. A rejected call is caught and logged. A
  non-empty text replaces the polished note; the title is derived when \<open>segmentCount\<close> is 1.
\<close>

definition getPolishedNote_response :: "Replies \<Rightarrow> VoiceNotesApp \<Rightarrow> VoiceNotesApp" where
  "getPolishedNote_response r s =
     (case polishReply r of
        Rejected \<Rightarrow> s
      | Resolved None \<Rightarrow> s
      | Resolved (Some polishedText) \<Rightarrow>
          if polishedText = [] then s
          else
            (let s1 = s\<lparr>accumulatedPolishedNote := polishedText\<rparr>;
                 s2 = (if segmentCount s1 = 1
                       then s1\<lparr>editorTitle := updateNoteTitle_el polishedText (editorTitle s1)\<rparr>
                       else s1)
             in s2\<lparr>currentNote :=
                      map_option (\<lambda>note. note\<lparr>polishedNote := polishedText\<rparr>) (currentNote s2)\<rparr>))"

text \<open>
  \<open>getSegmentTranscription\<close> from the reply of the transcription call on: a rejected call
  is rethrown; a non-empty text is appended to the transcript as one block and
  \<open>getPolishedNote\<close> is called; an empty or absent text is only logged.
\<close>

definition getSegmentTranscription_response :: "Replies \<Rightarrow> nat \<Rightarrow> VoiceNotesApp \<Rightarrow> Outcome" where
  "getSegmentTranscription_response r segNumber s =
     (case transcriptionReply r of
        Rejected \<Rightarrow> Threw TranscriptionError
      | Resolved None \<Rightarrow> Finished s
      | Resolved (Some transcriptionText) \<Rightarrow>
          if transcriptionText = [] then Finished s
          else
            (let s1 = s\<lparr>segmentCount := max (segmentCount s) segNumber\<rparr>;
                 finalRaw = addAudioTags (trim transcriptionText) s1;
                 fullTranscription = segmentHeader segNumber @ finalRaw;
                 s2 = s1\<lparr>accumulatedTranscription := accumulatedTranscription s1 @ fullTranscription\<rparr>;
                 s3 = s2\<lparr>currentNote :=
                           map_option (\<lambda>note. note\<lparr>rawTranscription := accumulatedTranscription s2\<rparr>)
                             (currentNote s2)\<rparr>
             in getPolishedNote_request r s3))"

text \<open>
  \<open>processAudioSegment\<close> up to the point where it waits for the refinement call or ends:
  an empty blob is skipped; a blob that cannot be decoded or encoded, or an empty base64
  text, throws; otherwise the transcription call is made.
\<close>

definition processAudioSegment_transcribe :: "Replies \<Rightarrow> AudioSegment \<Rightarrow> VoiceNotesApp \<Rightarrow> Outcome" where
  "processAudioSegment_transcribe r segment s =
     (if blob segment = 0 then Finished s
      else
        (case decoded r of
           None \<Rightarrow> Threw DecodeError
         | Some audioBuffer \<Rightarrow>
             (case convertToWav audioBuffer of
                None \<Rightarrow> Threw RangeError
              | Some wav \<Rightarrow>
                  if base64Audio r = [] then Threw Base64Error
                  else getSegmentTranscription_response r (segmentNumber segment)
                         (s\<lparr>effects := effects s @ [TranscriptionRequested (segmentNumber segment)]\<rparr>))))"

text \<open>
  The method as a whole, when nothing else runs in between: the result is the exception
  it throws or the state it leaves.
\<close>

definition processAudioSegment ::
    "Replies \<Rightarrow> AudioSegment \<Rightarrow> VoiceNotesApp \<Rightarrow> ProcessingError + VoiceNotesApp" where
  "processAudioSegment r segment s =
     (case processAudioSegment_transcribe r segment s of
        Threw e \<Rightarrow> Inl e
      | Finished s' \<Rightarrow> Inr s'
      | AwaitingPolish s' \<Rightarrow> Inr (getPolishedNote_response r s'))"

definition endFlight :: "AudioSegment \<Rightarrow> ProcessingPhase \<Rightarrow> VoiceNotesApp \<Rightarrow> VoiceNotesApp" where
  "endFlight segment phase s = s\<lparr>inFlight := remove1 (segment, phase) (inFlight s)\<rparr>"

text \<open>
  \<open>processNextSegment\<close> as a whole: the \<open>catch\<close> swallows what \<open>processAudioSegment\<close>
  throws, and the \<open>finally\<close> block runs in either case.
\<close>

definition processNextSegment :: "Replies \<Rightarrow> VoiceNotesApp \<Rightarrow> VoiceNotesApp" where
  "processNextSegment r s =
     (if isProcessingSegment s \<or> length (processingQueue s) = 0 then processNextSegment_begin s
      else
        (let segment = hd (processingQueue s);
             s1 = processNextSegment_begin s
         in case processAudioSegment r segment s1 of
              Inl e \<Rightarrow> processNextSegment_finally (endFlight segment Transcribing s1)
            | Inr s2 \<Rightarrow> processNextSegment_finally (endFlight segment Transcribing s2)))"

text \<open>
  The drain of a queue, one reply record per segment: the first call of
  \<open>processNextSegment\<close> comes from the recorder's \<open>stop\<close> handler, each further one from the
  \<open>setTimeout\<close> callback that the previous \<open>finally\<close> block scheduled, if it scheduled one.
\<close>

definition drainTimeout :: "Replies \<Rightarrow> VoiceNotesApp \<Rightarrow> VoiceNotesApp" where
  "drainTimeout r s =
     (if scheduledDrains s = 0 then s
      else processNextSegment r (s\<lparr>scheduledDrains := scheduledDrains s - 1\<rparr>))"

fun drainRest :: "Replies list \<Rightarrow> VoiceNotesApp \<Rightarrow> VoiceNotesApp" where
  "drainRest [] s = s"
| "drainRest (r # rs) s = drainRest rs (drainTimeout r s)"

fun drainQueue :: "Replies list \<Rightarrow> VoiceNotesApp \<Rightarrow> VoiceNotesApp" where
  "drainQueue [] s = s"
| "drainQueue (r # rs) s = drainRest rs (processNextSegment r s)"

text \<open>
  The block that a segment adds to the raw transcript under given replies: empty unless
  the segment is transcribed, that is, its blob is not empty, decoding succeeds, the base64
  text is not empty and the transcription call returns a non-empty text.
\<close>

definition transcribedBlock :: "VoiceNotesApp \<Rightarrow> AudioSegment \<Rightarrow> Replies \<Rightarrow> jsstring" where
  "transcribedBlock s segment r =
     (if blob segment = 0 \<or> decoded r = None \<or> base64Audio r = [] then []
      else (case transcriptionReply r of
              Resolved (Some text) \<Rightarrow>
                if text = [] then []
                else segmentHeader (segmentNumber segment) @ addAudioTags (trim text) s
            | _ \<Rightarrow> []))"

subsection \<open>New note and the initial state\<close>

definition createNewNote :: "nat \<Rightarrow> VoiceNotesApp \<Rightarrow> VoiceNotesApp" where
  "createNewNote now s =
     (let s1 = (if isContinuousMode s then cleanupAnimations (s\<lparr>isContinuousMode := False\<rparr>) else s);
          s2 = s1\<lparr>currentNote := Some \<lparr>note_id = now, rawTranscription = [], polishedNote = [],
                                       timestamp = now\<rparr>,
                  segmentCount := 0,
                  accumulatedTranscription := [], accumulatedPolishedNote := [],
                  processingQueue := [], isProcessingSegment := False,
                  editorTitle := setPlaceholder (editorTitle s1) True\<rparr>
      in if isRecording s2 then stopDualRecording s2 else stopLiveDisplay s2)"

text \<open>
  The object after its constructor: the field initialisers, then \<open>createNewNote\<close>.
  (\<open>saveNewNote\<close>, which the constructor also calls, finds no note to save.)
\<close>

definition newApp :: "Element option \<Rightarrow> nat \<Rightarrow> VoiceNotesApp" where
  "newApp title now =
     createNewNote now
       \<lparr>primaryRecorder = None, secondaryRecorder = None, activeRecorder = primary,
        editorTitle = title,
        primaryAudioChunks = [], secondaryAudioChunks = [],
        isRecording = False, isContinuousMode = False, currentNote = None,
        openingTags = [], closingTags = [], segmentCount = 0,
        accumulatedTranscription = [], accumulatedPolishedNote = [],
        processingQueue = [], isProcessingSegment = False,
        stream = None, screenStream = None, micStream = None,
        segmentIntervalId = False, segmentStartTime = 0,
        pendingFlushes = [], pendingStarts = 0, pendingStops = 0, scheduledDrains = 0,
        inFlight = [], effects = []\<rparr>"

subsection \<open>The event loop\<close>

text \<open>
  The tasks the browser can run: the two buttons, the end of stream acquisition (with the
  streams, or failing), the segment timer, the flush of a stopped recorder (with the size
  of its blob), the \<open>setTimeout\<close> callback of the queue, the replies of the two remote calls
  for a segment in flight, and the end of the wait in \<open>finalizeContinuousRecording\<close>. A
  task that is not pending leaves the state as it is. The end of the wait may come at any
  time after the stop was requested: the loop's condition and its bound are not looked at
  here, which only allows more behaviours.
\<close>

datatype Event =
    RecordButtonClicked
  | StreamsAcquired "MediaStream option" MediaStream nat
  | StreamsFailed
  | SegmentTimerFired nat
  | RecorderFlushed RecorderType nat nat
  | DrainTimeoutFired
  | TranscriptionSettled AudioSegment Replies
  | PolishSettled AudioSegment Replies
  | StopWaitOver
  | NewButtonClicked nat

fun handleEvent :: "Event \<Rightarrow> VoiceNotesApp \<Rightarrow> VoiceNotesApp" where
  "handleEvent RecordButtonClicked s = toggleRecording s"
| "handleEvent (StreamsAcquired screen mic now) s =
     (if pendingStarts s = 0 then s else startContinuousRecording_resume screen mic now s)"
| "handleEvent StreamsFailed s =
     (if pendingStarts s = 0 then s else startContinuousRecording_failed s)"
| "handleEvent (SegmentTimerFired now) s =
     (if segmentIntervalId s then segmentTimerCallback now s else s)"
| "handleEvent (RecorderFlushed type dataSize now) s =
     (if type \<in> set (pendingFlushes s)
      then onstop type now
             (ondataavailable type dataSize (s\<lparr>pendingFlushes := remove1 type (pendingFlushes s)\<rparr>))
      else s)"
| "handleEvent DrainTimeoutFired s =
     (if scheduledDrains s = 0 then s
      else processNextSegment_begin (s\<lparr>scheduledDrains := scheduledDrains s - 1\<rparr>))"
| "handleEvent (TranscriptionSettled segment r) s =
     (if (segment, Transcribing) \<in> set (inFlight s)
      then (case processAudioSegment_transcribe r segment s of
              Threw e \<Rightarrow> processNextSegment_finally (endFlight segment Transcribing s)
            | Finished s' \<Rightarrow> processNextSegment_finally (endFlight segment Transcribing s')
            | AwaitingPolish s' \<Rightarrow>
                (endFlight segment Transcribing s')\<lparr>inFlight :=
                   remove1 (segment, Transcribing) (inFlight s') @ [(segment, Polishing)]\<rparr>)
      else s)"
| "handleEvent (PolishSettled segment r) s =
     (if (segment, Polishing) \<in> set (inFlight s)
      then processNextSegment_finally (endFlight segment Polishing (getPolishedNote_response r s))
      else s)"
| "handleEvent StopWaitOver s =
     (if pendingStops s = 0 then s
      else stopContinuousRecording_end (s\<lparr>pendingStops := pendingStops s - 1\<rparr>))"
| "handleEvent (NewButtonClicked now) s = createNewNote now s"

definition run :: "Event list \<Rightarrow> VoiceNotesApp \<Rightarrow> VoiceNotesApp" where
  "run events s = foldl (\<lambda>s e. handleEvent e s) s events"

text \<open>The segments enqueued so far, in order, read off the log.\<close>

fun enqueuedSegments :: "Effect list \<Rightarrow> AudioSegment list" where
  "enqueuedSegments [] = []"
| "enqueuedSegments (SegmentEnqueued segment # es) = segment # enqueuedSegments es"
| "enqueuedSegments (e # es) = enqueuedSegments es"

text \<open>
  The state of the two slots that the rotation keeps: while \<open>isRecording\<close> holds both slots
  have a recorder; only the active slot can be capturing; and while recording is on, in the
  sense of the guard of the segment timer (\<open>isContinuousMode && isRecording\<close>), the active
  slot is capturing.
\<close>

definition slotsConsistent :: "VoiceNotesApp \<Rightarrow> bool" where
  "slotsConsistent s \<longleftrightarrow>
     (isRecording s \<longrightarrow> primaryRecorder s \<noteq> None \<and> secondaryRecorder s \<noteq> None) \<and>
     (\<forall>type. capturing type s \<longrightarrow> type = activeRecorder s) \<and>
     (isRecording s \<and> isContinuousMode s \<longrightarrow> capturing (activeRecorder s) s)"

text \<open>
  The fields that belong to the recorder slots; the queue and the remote calls neither read
  nor write them, except that the \<open>stop\<close> handler empties a chunk list.
\<close>

definition slotFields ::
    "VoiceNotesApp \<Rightarrow> RecordingState option \<times> RecordingState option \<times> RecorderType \<times> bool \<times> bool" where
  "slotFields s =
     (primaryRecorder s, secondaryRecorder s, activeRecorder s, isRecording s, isContinuousMode s)"

definition chunksEmpty :: "VoiceNotesApp \<Rightarrow> bool" where
  "chunksEmpty s \<longleftrightarrow> primaryAudioChunks s = [] \<and> secondaryAudioChunks s = []"

text \<open>
  Replies used in the examples: a segment that is decoded, encoded and transcribed as a
  given text, with a refinement that returns a note with a heading; and the same with a
  transcription call that fails.
\<close>

definition transcribedAs :: "jsstring \<Rightarrow> Replies" where
  "transcribedAs text =
     \<lparr>decoded = Some exampleBuffer, base64Audio = js ''UklGRjQAAABXQVZF'',
      transcriptionReply = Resolved (Some text), rawContentValid = True,
      polishReply = Resolved (Some (js ''# Weekly Sync''))\<rparr>"

definition transcriptionFails :: Replies where
  "transcriptionFails =
     \<lparr>decoded = Some exampleBuffer, base64Audio = js ''UklGRjQAAABXQVZF'',
      transcriptionReply = Rejected, rawContentValid = True,
      polishReply = Resolved (Some (js ''# Weekly Sync''))\<rparr>"

definition exampleQueue :: "AudioSegment list" where
  "exampleQueue =
     [\<lparr>blob = 100, startTime = 0, endTime = 120000, segmentNumber = 2\<rparr>,
      \<lparr>blob = 100, startTime = 120000, endTime = 240000, segmentNumber = 3\<rparr>,
      \<lparr>blob = 50, startTime = 240000, endTime = 300000, segmentNumber = 4\<rparr>]"

text \<open>A title element as the page has it before any title is set.\<close>

definition exampleTitle :: Element where
  "exampleTitle = \<lparr>textContent = js ''Untitled Note'', placeholder = js ''Untitled Note'',
                    placeholderActive = True\<rparr>"

section \<open>The WAV encoder: proofs\<close>

subsection \<open>Writes at the end of the bytes written so far\<close>

lemma pre_upd1:
  "length pre = k \<Longrightarrow> (pre @ x # rest)[k := a] = pre @ a # rest"
  by (induction pre arbitrary: k) auto

lemma setUint8_tail:
  "length pre = k \<Longrightarrow> setUint8 (pre @ replicate (Suc j) 0) k x = Some (pre @ of_nat x # replicate j 0)"
  by (simp add: setUint8_def pre_upd1)

lemma writeString_tail:
  "length pre = k \<Longrightarrow>
   writeString (pre @ replicate (length str + j) 0) k str = Some (pre @ map of_nat str @ replicate j 0)"
proof (induction str arbitrary: pre k)
  case Nil
  then show ?case by simp
next
  case (Cons c str)
  have "length (pre @ [of_nat c :: byte]) = k + 1" using Cons.prems by simp
  from Cons.IH[OF this] show ?case using Cons.prems
    by (simp add: setUint8_def list_update_append)
qed

lemma setUint16_tail:
  "length pre = k \<Longrightarrow>
   setUint16 (pre @ replicate (2 + j) 0) k x = Some (pre @ bytes16 (of_nat x) @ replicate j 0)"
  by (simp add: setUint16_def Let_def bytes16_def list_update_append numeral_2_eq_2)

lemma setUint32_tail:
  "length pre = k \<Longrightarrow>
   setUint32 (pre @ replicate (4 + j) 0) k x = Some (pre @ bytes32 (of_nat x) @ replicate j 0)"
proof -
  assume k: "length pre = k"
  have r: "replicate (4 + j) (0::byte) = 0 # 0 # 0 # 0 # replicate j 0"
    by (simp add: numeral_eq_Suc)
  have e: "k + 1 = Suc k" "k + 2 = Suc (Suc k)" "k + 3 = Suc (Suc (Suc k))" by simp_all
  show ?thesis
    unfolding setUint32_def Let_def r e bytes32_def using k by (simp add: list_update_append)
qed

lemma setInt16_tail:
  "length pre = k \<Longrightarrow>
   setInt16 (pre @ replicate (2 + j) 0) k v = Some (pre @ bytes16 (ToInt16 v) @ replicate j 0)"
  by (simp add: setInt16_def Let_def bytes16_def list_update_append numeral_2_eq_2)

lemma writeSamples_tail:
  "length pre = k \<Longrightarrow>
   writeSamples (pre @ replicate (2 * length xs) 0) k xs =
     Some (pre @ concat (map (\<lambda>x. bytes16 (ToInt16 (scaleSample x))) xs))"
proof (induction xs arbitrary: pre k)
  case Nil
  then show ?case by simp
next
  case (Cons x xs)
  have "length (pre @ bytes16 (ToInt16 (scaleSample x))) = k + 2"
    using Cons.prems by (simp add: bytes16_def)
  from Cons.IH[OF this] show ?case
    using Cons.prems setInt16_tail[of pre k "2 * length xs" "scaleSample x"] by simp
qed

lemma header_writes:
  "(do {
        view \<leftarrow> writeString (replicate (44 + m) 0) 0 s1;
        view \<leftarrow> setUint32 view 4 a;
        view \<leftarrow> writeString view 8 s2;
        view \<leftarrow> writeString view 12 s3;
        view \<leftarrow> setUint32 view 16 x16;
        view \<leftarrow> setUint16 view 20 x1;
        view \<leftarrow> setUint16 view 22 c;
        view \<leftarrow> setUint32 view 24 r;
        view \<leftarrow> setUint32 view 28 br;
        view \<leftarrow> setUint16 view 32 ba;
        view \<leftarrow> setUint16 view 34 y16;
        view \<leftarrow> writeString view 36 s4;
        view \<leftarrow> setUint32 view 40 d;
        f view}) = f ((map of_nat s1 @ bytes32 (of_nat a) @ map of_nat s2 @ map of_nat s3 @ bytes32 (of_nat x16)
          @ bytes16 (of_nat x1) @ bytes16 (of_nat c) @ bytes32 (of_nat r) @ bytes32 (of_nat br)
          @ bytes16 (of_nat ba) @ bytes16 (of_nat y16) @ map of_nat s4 @ bytes32 (of_nat d)) @ replicate m 0)"
  if "length s1 = 4" "length s2 = 4" "length s3 = 4" "length s4 = 4"
proof -
  let ?p1 = "map of_nat s1 :: byte list"
  let ?p2 = "?p1 @ bytes32 (of_nat a)"
  let ?p3 = "?p2 @ map of_nat s2"
  let ?p4 = "?p3 @ map of_nat s3"
  let ?p5 = "?p4 @ bytes32 (of_nat x16)"
  let ?p6 = "?p5 @ bytes16 (of_nat x1)"
  let ?p7 = "?p6 @ bytes16 (of_nat c)"
  let ?p8 = "?p7 @ bytes32 (of_nat r)"
  let ?p9 = "?p8 @ bytes32 (of_nat br)"
  let ?p10 = "?p9 @ bytes16 (of_nat ba)"
  let ?p11 = "?p10 @ bytes16 (of_nat y16)"
  let ?p12 = "?p11 @ map of_nat s4"
  let ?p13 = "?p12 @ bytes32 (of_nat d)"
  have l32: "length (bytes32 w) = 4" and l16: "length (bytes16 v) = 2" for w v
    by (simp_all add: bytes32_def bytes16_def)
  have w1: "writeString (replicate (44 + m) 0) 0 s1 = Some (?p1 @ replicate (40 + m) 0)"
    using writeString_tail[of "[]" 0 s1 "40 + m"] that by simp
  have w2: "setUint32 (?p1 @ replicate (40 + m) 0) 4 a = Some (?p2 @ replicate (36 + m) 0)"
    using setUint32_tail[of ?p1 4 "36 + m" a] that by simp
  have w3: "writeString (?p2 @ replicate (36 + m) 0) 8 s2 = Some (?p3 @ replicate (32 + m) 0)"
    using writeString_tail[of ?p2 8 s2 "32 + m"] that by (simp add: l32)
  have w4: "writeString (?p3 @ replicate (32 + m) 0) 12 s3 = Some (?p4 @ replicate (28 + m) 0)"
    using writeString_tail[of ?p3 12 s3 "28 + m"] that by (simp add: l32)
  have w5: "setUint32 (?p4 @ replicate (28 + m) 0) 16 x16 = Some (?p5 @ replicate (24 + m) 0)"
    using setUint32_tail[of ?p4 16 "24 + m" x16] that by (simp add: l32)
  have w6: "setUint16 (?p5 @ replicate (24 + m) 0) 20 x1 = Some (?p6 @ replicate (22 + m) 0)"
    using setUint16_tail[of ?p5 20 "22 + m" x1] that by (simp add: l32)
  have w7: "setUint16 (?p6 @ replicate (22 + m) 0) 22 c = Some (?p7 @ replicate (20 + m) 0)"
    using setUint16_tail[of ?p6 22 "20 + m" c] that by (simp add: l32 l16)
  have w8: "setUint32 (?p7 @ replicate (20 + m) 0) 24 r = Some (?p8 @ replicate (16 + m) 0)"
    using setUint32_tail[of ?p7 24 "16 + m" r] that by (simp add: l32 l16)
  have w9: "setUint32 (?p8 @ replicate (16 + m) 0) 28 br = Some (?p9 @ replicate (12 + m) 0)"
    using setUint32_tail[of ?p8 28 "12 + m" br] that by (simp add: l32 l16)
  have w10: "setUint16 (?p9 @ replicate (12 + m) 0) 32 ba = Some (?p10 @ replicate (10 + m) 0)"
    using setUint16_tail[of ?p9 32 "10 + m" ba] that by (simp add: l32 l16)
  have w11: "setUint16 (?p10 @ replicate (10 + m) 0) 34 y16 = Some (?p11 @ replicate (8 + m) 0)"
    using setUint16_tail[of ?p10 34 "8 + m" y16] that by (simp add: l32 l16)
  have w12: "writeString (?p11 @ replicate (8 + m) 0) 36 s4 = Some (?p12 @ replicate (4 + m) 0)"
    using writeString_tail[of ?p11 36 s4 "4 + m"] that by (simp add: l32 l16)
  have w13: "setUint32 (?p12 @ replicate (4 + m) 0) 40 d = Some (?p13 @ replicate m 0)"
    using setUint32_tail[of ?p12 40 m d] that by (simp add: l32 l16)
  show ?thesis
    unfolding w1 bind.bind_lunit w2 w3 w4 w5 w6 w7 w8 w9 w10 w11 w12 w13 by simp
qed

subsection \<open>Reading little-endian fields back\<close>

lemma split256: "(n::nat) = n mod 256 + 256 * (n div 256)"
  by simp

lemma getUint16_bytes16:
  "unat (ucast (w::16 word) :: byte) + 256 * unat (ucast (drop_bit 8 w) :: byte) = unat w"
proof -
  have "unat w < 256 * 256" using unsigned_less[of w] by simp
  then have "unat w div 256 < 256"
    by (simp only: less_mult_imp_div_less)
  then show ?thesis
    by (simp add: unsigned_ucast_eq unat_drop_bit_eq take_bit_eq_mod drop_bit_eq_div unat_div_distrib)
qed

lemma getUint32_bytes32:
  "unat (ucast (w::32 word) :: byte) + 256 * unat (ucast (drop_bit 8 w) :: byte)
     + 65536 * unat (ucast (drop_bit 16 w) :: byte) + 16777216 * unat (ucast (drop_bit 24 w) :: byte) = unat w"
proof -
  define n where "n = unat w"
  have "n < 256 * (256 * (256 * 256))" using unsigned_less[of w] by (simp add: n_def)
  then have q3: "n div 256 div 256 div 256 < 256"
    by (simp only: less_mult_imp_div_less)
  have d2: "n div 65536 = n div 256 div 256" and d3: "n div 16777216 = n div 256 div 256 div 256"
    by (simp_all add: div_mult2_eq[symmetric])
  have "n mod 256 + 256 * (n div 256 mod 256) + 65536 * (n div 256 div 256 mod 256)
          + 16777216 * (n div 256 div 256 div 256) = n"
    using split256[of n] split256[of "n div 256"] split256[of "n div 256 div 256"] by linarith
  then show ?thesis using q3
    by (simp add: unsigned_ucast_eq unat_drop_bit_eq take_bit_eq_mod drop_bit_eq_div unat_div_distrib d2 d3 flip: n_def)
qed

lemma inner_loop:
  "o' + C \<le> length acc \<Longrightarrow>
   fold (\<lambda>c acc. acc[o' + c := f c]) [0..<C] acc = take o' acc @ map f [0..<C] @ drop (o' + C) acc"
proof (induction C)
  case 0
  then show ?case by simp
next
  case (Suc C)
  then have IH: "fold (\<lambda>c acc. acc[o' + c := f c]) [0..<C] acc = take o' acc @ map f [0..<C] @ drop (o' + C) acc"
    by simp
  have d: "drop (o' + C) acc = acc ! (o' + C) # drop (Suc (o' + C)) acc"
    using Suc.prems by (simp add: Cons_nth_drop_Suc)
  show ?case using Suc.prems
    by (simp add: IH d list_update_append)
qed

lemma outer_loop:
  "k \<le> S \<Longrightarrow>
   fold (\<lambda>i acc. fold (\<lambda>c acc. acc[i * C + c := g c i]) [0..<C] acc) [0..<k] (replicate (S * C) z)
     = concat (map (\<lambda>i. map (\<lambda>c. g c i) [0..<C]) [0..<k]) @ replicate ((S - k) * C) z"
proof (induction k)
  case 0
  then show ?case by simp
next
  case (Suc k)
  let ?P = "concat (map (\<lambda>i. map (\<lambda>c. g c i) [0..<C]) [0..<k])"
  have lenP: "length ?P = k * C"
    by (induction k) simp_all
  have IH: "fold (\<lambda>i acc. fold (\<lambda>c acc. acc[i * C + c := g c i]) [0..<C] acc) [0..<k] (replicate (S * C) z)
     = ?P @ replicate ((S - k) * C) z" using Suc by simp
  have sz: "(S - k) * C = C + (S - Suc k) * C"
    using Suc.prems by (simp add: Suc_diff_Suc Suc_le_lessD flip: mult_Suc)
  have "fold (\<lambda>c acc. acc[k * C + c := g c k]) [0..<C] (?P @ replicate ((S - k) * C) z)
      = take (k * C) (?P @ replicate ((S - k) * C) z) @ map (\<lambda>c. g c k) [0..<C] @ drop (k * C + C) (?P @ replicate ((S - k) * C) z)"
    by (rule inner_loop) (simp add: lenP sz)
  also have "\<dots> = ?P @ map (\<lambda>c. g c k) [0..<C] @ replicate ((S - Suc k) * C) z"
    by (simp add: lenP sz)
  finally show ?case
    by (simp add: IH)
qed

subsection \<open>Interleaving and quantisation\<close>

lemma nth_concat_uniform:
  "\<forall>x \<in> set xs. length (f x) = n \<Longrightarrow> k < length xs \<Longrightarrow> j < n \<Longrightarrow>
   concat (map f xs) ! (k * n + j) = f (xs ! k) ! j"
proof (induction xs arbitrary: k)
  case Nil
  then show ?case by simp
next
  case (Cons x xs)
  show ?case
  proof (cases k)
    case 0
    then show ?thesis using Cons.prems by (simp add: nth_append)
  next
    case (Suc k')
    then have "concat (map f (x # xs)) ! (k * n + j) = concat (map f xs) ! (k' * n + j)"
      using Cons.prems by (simp add: nth_append)
    also have "\<dots> = f (xs ! k') ! j"
      using Cons.prems Suc by (intro Cons.IH) auto
    finally show ?thesis using Suc by simp
  qed
qed

lemma length_concat_uniform:
  "\<forall>x \<in> set xs. length (f x) = n \<Longrightarrow> length (concat (map f xs)) = length xs * n"
  by (induction xs) simp_all

lemma interleave_eq:
  "interleave b =
     concat (map (\<lambda>i. map (\<lambda>c. channelData b ! c ! i) [0..<numberOfChannels b]) [0..<length_buf b])"
  unfolding interleave_def
  using outer_loop[of "length_buf b" "length_buf b" "numberOfChannels b" "\<lambda>c i. channelData b ! c ! i" 0]
  by simp

lemma length_interleave: "length (interleave b) = length_buf b * numberOfChannels b"
  unfolding interleave_eq by (subst length_concat_uniform[where n = "numberOfChannels b"]) simp_all

lemma interleave_nth:
  "i < length_buf b \<Longrightarrow> c < numberOfChannels b \<Longrightarrow>
   interleave b ! (i * numberOfChannels b + c) = channelData b ! c ! i"
  unfolding interleave_eq
  by (subst nth_concat_uniform[where n = "numberOfChannels b"]) simp_all

lemma quantize_range: "- 32768 \<le> quantize x \<and> quantize x \<le> 32767"
proof -
  consider "x < - 1" | "1 < x" | "- 1 \<le> x" "x < 0" | "0 \<le> x" "x \<le> 1"
    by linarith
  then show ?thesis
  proof cases
    case 1
    then show ?thesis by (simp add: quantize_def)
  next
    case 2
    then show ?thesis by (simp add: quantize_def)
  next
    case 3
    then have "0 \<le> - (x * 32768)" "- (x * 32768) \<le> 32768" by simp_all
    then have "0 \<le> \<lfloor>- (x * 32768)\<rfloor>" "\<lfloor>- (x * 32768)\<rfloor> \<le> 32768"
      by (simp_all add: le_floor_iff floor_le_iff)
    moreover have "quantize x = - \<lfloor>- (x * 32768)\<rfloor>"
      using 3 by (simp add: quantize_def Let_def mult_less_0_iff)
    ultimately show ?thesis by linarith
  next
    case 4
    then have "0 \<le> x * 32767" "x * 32767 \<le> 32767" by simp_all
    then have "0 \<le> \<lfloor>x * 32767\<rfloor>" "\<lfloor>x * 32767\<rfloor> \<le> 32767"
      by (simp_all add: le_floor_iff floor_le_iff)
    moreover have "quantize x = \<lfloor>x * 32767\<rfloor>"
      using 4 by (simp add: quantize_def Let_def mult_less_0_iff)
    ultimately show ?thesis by linarith
  qed
qed

lemma ToInt16_scaleSample: "ToInt16 (scaleSample x) = word_of_int (quantize x)"
  by (simp add: ToInt16_def scaleSample_def quantize_def Let_def max_def min_def)

lemma sint_ToInt16_scaleSample: "sint (ToInt16 (scaleSample x)) = quantize x"
  using quantize_range[of x]
  by (simp add: ToInt16_scaleSample signed_of_int signed_take_bit_int_eq_self)

lemma getInt16_bytes16: "getInt16 (bytes16 w) 0 = sint w"
  by (simp add: getInt16_def getUint16_def bytes16_def getUint16_bytes16)

subsection \<open>The output in closed form\<close>

lemma length_bytes [simp]: "length (bytes32 w) = 4" "length (bytes16 v) = 2"
  by (simp_all add: bytes32_def bytes16_def)

lemma length_wavHeader: "length (wavHeader b) = 44"
  by (simp add: wavHeader_def)

lemma length_pcmPayload: "length (pcmPayload b) = 2 * length_buf b * numberOfChannels b"
  unfolding pcmPayload_def
  by (subst length_concat_uniform[where n = 2]) (simp_all add: length_interleave)

lemma convertToWav_eq: "convertToWav b = Some (wavHeader b @ pcmPayload b)"
proof -
  have "convertToWav b = writeSamples (wavHeader b @ replicate (length (interleave b) * 2) 0) 44 (interleave b)"
    unfolding convertToWav_def Let_def wavHeader_def
    by (rule header_writes) simp_all
  also have "\<dots> = Some (wavHeader b @ pcmPayload b)"
    using writeSamples_tail[of "wavHeader b" 44 "interleave b"]
    by (simp add: length_wavHeader pcmPayload_def mult.commute)
  finally show ?thesis .
qed

lemma getUint32_at:
  "length pre = k \<Longrightarrow> getUint32 (pre @ bytes32 w @ rest) k = unat w"
  by (simp add: getUint32_def nth_append bytes32_def getUint32_bytes32)

lemma getUint16_at:
  "length pre = k \<Longrightarrow> getUint16 (pre @ bytes16 w @ rest) k = unat w"
  by (simp add: getUint16_def nth_append bytes16_def getUint16_bytes16)

lemma take_drop_at:
  "length pre = k \<Longrightarrow> length s = n \<Longrightarrow> take n (drop k (pre @ s @ rest)) = s"
  by simp

lemma unat32: "v < 2 ^ 32 \<Longrightarrow> unat (of_nat v :: 32 word) = v"
  by (simp add: unat_of_nat)

lemma unat16: "v < 2 ^ 16 \<Longrightarrow> unat (of_nat v :: 16 word) = v"
  by (simp add: unat_of_nat)

lemma concat_concat_map: "concat (concat xss) = concat (map concat xss)"
  by (induction xss) simp_all

lemma pcmPayload_frames:
  "pcmPayload b =
     concat (map (\<lambda>i. concat (map (\<lambda>c. bytes16 (ToInt16 (scaleSample (channelData b ! c ! i))))
                                 [0..<numberOfChannels b]))
                 [0..<length_buf b])"
  by (simp add: pcmPayload_def interleave_eq map_concat comp_def concat_concat_map)

lemma header_fields:
  fixes s1 s2 s3 s4 P :: "byte list"
  assumes "length s1 = 4" "length s2 = 4" "length s3 = 4" "length s4 = 4"
    and out: "out = s1 @ bytes32 w1 @ s2 @ s3 @ bytes32 w2 @ bytes16 w3 @ bytes16 w4 @ bytes32 w5 @
                 bytes32 w6 @ bytes16 w7 @ bytes16 w8 @ s4 @ bytes32 w9 @ P"
  shows "take 4 out = s1" "getUint32 out 4 = unat w1" "take 4 (drop 8 out) = s2"
    "take 4 (drop 12 out) = s3" "getUint32 out 16 = unat w2" "getUint16 out 20 = unat w3"
    "getUint16 out 22 = unat w4" "getUint32 out 24 = unat w5" "getUint32 out 28 = unat w6"
    "getUint16 out 32 = unat w7" "getUint16 out 34 = unat w8" "take 4 (drop 36 out) = s4"
    "getUint32 out 40 = unat w9" "drop 44 out = P"
proof -
  show "take 4 out = s1" unfolding out using assms(1) by simp
  show "getUint32 out 4 = unat w1"
    unfolding out using getUint32_at[of s1 4] assms(1) by simp
  show "take 4 (drop 8 out) = s2"
    unfolding out using take_drop_at[of "s1 @ bytes32 w1" 8 s2 4] assms(1-4) by simp
  show "take 4 (drop 12 out) = s3"
    unfolding out using take_drop_at[of "s1 @ bytes32 w1 @ s2" 12 s3 4] assms(1-4) by simp
  show "getUint32 out 16 = unat w2"
    unfolding out using getUint32_at[of "s1 @ bytes32 w1 @ s2 @ s3" 16 w2] assms(1-4) by simp
  show "getUint16 out 20 = unat w3"
    unfolding out using getUint16_at[of "s1 @ bytes32 w1 @ s2 @ s3 @ bytes32 w2" 20 w3] assms(1-4)
    by simp
  show "getUint16 out 22 = unat w4"
    unfolding out
    using getUint16_at[of "s1 @ bytes32 w1 @ s2 @ s3 @ bytes32 w2 @ bytes16 w3" 22 w4] assms(1-4)
    by simp
  show "getUint32 out 24 = unat w5"
    unfolding out
    using getUint32_at[of "s1 @ bytes32 w1 @ s2 @ s3 @ bytes32 w2 @ bytes16 w3 @ bytes16 w4" 24 w5]
      assms(1-4)
    by simp
  show "getUint32 out 28 = unat w6"
    unfolding out
    using getUint32_at[of "s1 @ bytes32 w1 @ s2 @ s3 @ bytes32 w2 @ bytes16 w3 @ bytes16 w4 @
                           bytes32 w5" 28 w6] assms(1-4)
    by simp
  show "getUint16 out 32 = unat w7"
    unfolding out
    using getUint16_at[of "s1 @ bytes32 w1 @ s2 @ s3 @ bytes32 w2 @ bytes16 w3 @ bytes16 w4 @
                           bytes32 w5 @ bytes32 w6" 32 w7] assms(1-4)
    by simp
  show "getUint16 out 34 = unat w8"
    unfolding out
    using getUint16_at[of "s1 @ bytes32 w1 @ s2 @ s3 @ bytes32 w2 @ bytes16 w3 @ bytes16 w4 @
                           bytes32 w5 @ bytes32 w6 @ bytes16 w7" 34 w8] assms(1-4)
    by simp
  show "take 4 (drop 36 out) = s4"
    unfolding out
    using take_drop_at[of "s1 @ bytes32 w1 @ s2 @ s3 @ bytes32 w2 @ bytes16 w3 @ bytes16 w4 @
                           bytes32 w5 @ bytes32 w6 @ bytes16 w7 @ bytes16 w8" 36 s4 4] assms(1-4)
    by simp
  show "getUint32 out 40 = unat w9"
    unfolding out
    using getUint32_at[of "s1 @ bytes32 w1 @ s2 @ s3 @ bytes32 w2 @ bytes16 w3 @ bytes16 w4 @
                           bytes32 w5 @ bytes32 w6 @ bytes16 w7 @ bytes16 w8 @ s4" 40 w9] assms(1-4)
    by simp
  show "drop 44 out = P"
    unfolding out using assms(1-4) by simp
qed


lemma getInt16_payload:
  assumes "k < length xs"
  shows "getInt16 (H @ concat (map (\<lambda>x. bytes16 (ToInt16 (scaleSample x))) xs)) (length H + 2 * k)
           = quantize (xs ! k)"
proof -
  let ?f = "\<lambda>x. bytes16 (ToInt16 (scaleSample x))"
  let ?P = "concat (map ?f xs)"
  have u: "\<forall>x \<in> set xs. length (?f x) = 2" by simp
  have p0: "?P ! (k * 2 + 0) = ?f (xs ! k) ! 0"
    by (rule nth_concat_uniform[OF u assms]) simp
  have p1: "?P ! (k * 2 + 1) = ?f (xs ! k) ! 1"
    by (rule nth_concat_uniform[OF u assms]) simp
  have "getUint16 (H @ ?P) (length H + 2 * k) = getUint16 (?f (xs ! k)) 0"
    using p0 p1 by (simp add: getUint16_def nth_append mult.commute)
  then have "getInt16 (H @ ?P) (length H + 2 * k) = getInt16 (?f (xs ! k)) 0"
    by (simp add: getInt16_def)
  then show ?thesis
    by (simp add: getInt16_bytes16 sint_ToInt16_scaleSample)
qed


text \<open>
  Claim C4. For a decoded buffer with \<open>C\<close> channels, \<open>S\<close> frames per channel and sample
  rate \<open>R\<close> whose header fields fit their widths, \<open>convertToWav\<close> returns (it never
  throws) exactly \<open>44 + 2 * S * C\<close> bytes: the tags \<open>RIFF\<close>, \<open>WAVE\<close>, \<open>fmt\<close> and
  \<open>data\<close> at offsets 0, 8, 12 and 36, and the little-endian fields RIFF size
  \<open>36 + 2 * S * C\<close>, format chunk size 16, format tag 1, channel count \<open>C\<close>, sample rate
  \<open>R\<close>, byte rate \<open>R * C * 2\<close>, block align \<open>C * 2\<close>, bits per sample 16 and data size
  \<open>2 * S * C\<close>; after the header comes the payload, frame by frame, and within a frame
  channel by channel, two bytes per sample.
\<close>

theorem convertToWav_layout:
  assumes "wellFormed b" and "fitsWav b"
  shows "\<exists>out. convertToWav b = Some out \<and>
           length out = 44 + 2 * length_buf b * numberOfChannels b \<and>
           take 4 out = map of_nat (js ''RIFF'') \<and>
           getUint32 out 4 = 36 + 2 * length_buf b * numberOfChannels b \<and>
           take 4 (drop 8 out) = map of_nat (js ''WAVE'') \<and>
           take 4 (drop 12 out) = map of_nat (js ''fmt '') \<and>
           getUint32 out 16 = 16 \<and>
           getUint16 out 20 = 1 \<and>
           getUint16 out 22 = numberOfChannels b \<and>
           getUint32 out 24 = sampleRate b \<and>
           getUint32 out 28 = sampleRate b * numberOfChannels b * 2 \<and>
           getUint16 out 32 = numberOfChannels b * 2 \<and>
           getUint16 out 34 = 16 \<and>
           take 4 (drop 36 out) = map of_nat (js ''data'') \<and>
           getUint32 out 40 = 2 * length_buf b * numberOfChannels b \<and>
           drop 44 out =
             concat (map (\<lambda>i. concat (map (\<lambda>c. bytes16 (ToInt16 (scaleSample (channelData b ! c ! i))))
                                         [0..<numberOfChannels b]))
                         [0..<length_buf b])"
proof -
  let ?C = "numberOfChannels b" and ?R = "sampleRate b" and ?n = "length (interleave b)"
  let ?out = "wavHeader b @ pcmPayload b"
  have n: "?n = length_buf b * ?C" by (rule length_interleave)
  from assms(2) have b1: "?C * 2 < 2 ^ 16" and b2: "?R < 2 ^ 32" and b3: "?R * ?C * 2 < 2 ^ 32"
    and b4: "44 + 2 * length_buf b * ?C < 2 ^ 32"
    by (simp_all add: fitsWav_def)
  have u1: "unat (of_nat (36 + ?n * 2) :: 32 word) = 36 + 2 * length_buf b * ?C"
    by (subst unat32) (use b4 n in simp_all)
  have u2: "unat (of_nat 16 :: 32 word) = 16" by simp
  have u3: "unat (of_nat 1 :: 16 word) = 1" by simp
  have u4: "unat (of_nat ?C :: 16 word) = ?C"
    by (subst unat16) (use b1 in simp_all)
  have u5: "unat (of_nat ?R :: 32 word) = ?R"
    by (rule unat32) (rule b2)
  have u6: "unat (of_nat (?R * ?C * 2) :: 32 word) = ?R * ?C * 2"
    by (rule unat32) (rule b3)
  have u7: "unat (of_nat (?C * 2) :: 16 word) = ?C * 2"
    by (rule unat16) (rule b1)
  have u8: "unat (of_nat 16 :: 16 word) = 16" by simp
  have u9: "unat (of_nat (?n * 2) :: 32 word) = 2 * length_buf b * ?C"
    by (subst unat32) (use b4 n in simp_all)
  have out: "?out = map of_nat (js ''RIFF'') @ bytes32 (of_nat (36 + ?n * 2)) @
      map of_nat (js ''WAVE'') @ map of_nat (js ''fmt '') @ bytes32 (of_nat 16) @ bytes16 (of_nat 1) @
      bytes16 (of_nat ?C) @ bytes32 (of_nat ?R) @ bytes32 (of_nat (?R * ?C * 2)) @
      bytes16 (of_nat (?C * 2)) @ bytes16 (of_nat 16) @ map of_nat (js ''data'') @
      bytes32 (of_nat (?n * 2)) @ pcmPayload b"
    unfolding wavHeader_def append_assoc ..
  have len: "length ?out = 44 + 2 * length_buf b * ?C"
    by (simp add: length_wavHeader length_pcmPayload)
  have l: "length (map of_nat (js ''RIFF'') :: byte list) = 4"
    "length (map of_nat (js ''WAVE'') :: byte list) = 4"
    "length (map of_nat (js ''fmt '') :: byte list) = 4"
    "length (map of_nat (js ''data'') :: byte list) = 4"
    by simp_all
  note f = header_fields[OF l out]
  show ?thesis
    unfolding convertToWav_eq
  proof (rule exI[of _ ?out], intro conjI)
    show "Some ?out = Some ?out" ..
    show "length ?out = 44 + 2 * length_buf b * ?C" by (rule len)
    show "take 4 ?out = map of_nat (js ''RIFF'')" by (rule f(1))
    show "getUint32 ?out 4 = 36 + 2 * length_buf b * ?C" by (simp only: f(2) u1)
    show "take 4 (drop 8 ?out) = map of_nat (js ''WAVE'')" by (rule f(3))
    show "take 4 (drop 12 ?out) = map of_nat (js ''fmt '')" by (rule f(4))
    show "getUint32 ?out 16 = 16" by (simp only: f(5) u2)
    show "getUint16 ?out 20 = 1" by (simp only: f(6) u3)
    show "getUint16 ?out 22 = ?C" by (simp only: f(7) u4)
    show "getUint32 ?out 24 = ?R" by (simp only: f(8) u5)
    show "getUint32 ?out 28 = ?R * ?C * 2" by (simp only: f(9) u6)
    show "getUint16 ?out 32 = ?C * 2" by (simp only: f(10) u7)
    show "getUint16 ?out 34 = 16" by (simp only: f(11) u8)
    show "take 4 (drop 36 ?out) = map of_nat (js ''data'')" by (rule f(12))
    show "getUint32 ?out 40 = 2 * length_buf b * ?C" by (simp only: f(13) u9)
    show "drop 44 ?out =
             concat (map (\<lambda>i. concat (map (\<lambda>c. bytes16 (ToInt16 (scaleSample (channelData b ! c ! i))))
                                         [0..<?C]))
                         [0..<length_buf b])"
      using f(14) by (simp only: pcmPayload_frames)
  qed
qed

theorem convertToWav_layout_witness:
  "wellFormed exampleBuffer \<and> fitsWav exampleBuffer \<and>
   (\<exists>out. convertToWav exampleBuffer = Some out \<and> length out = 52 \<and>
      getUint32 out 4 = 44 \<and> getUint16 out 22 = 2 \<and> getUint32 out 24 = 48000 \<and>
      getUint32 out 28 = 192000 \<and> getUint16 out 32 = 4 \<and> getUint32 out 40 = 8)"
proof -
  have w: "wellFormed exampleBuffer"
    by (simp add: wellFormed_def exampleBuffer_def)
  have f: "fitsWav exampleBuffer"
    by (simp add: fitsWav_def exampleBuffer_def)
  from convertToWav_layout[OF w f] obtain out where
    "convertToWav exampleBuffer = Some out"
    "length out = 44 + 2 * length_buf exampleBuffer * numberOfChannels exampleBuffer"
    "getUint32 out 4 = 36 + 2 * length_buf exampleBuffer * numberOfChannels exampleBuffer"
    "getUint16 out 22 = numberOfChannels exampleBuffer"
    "getUint32 out 24 = sampleRate exampleBuffer"
    "getUint32 out 28 = sampleRate exampleBuffer * numberOfChannels exampleBuffer * 2"
    "getUint16 out 32 = numberOfChannels exampleBuffer * 2"
    "getUint32 out 40 = 2 * length_buf exampleBuffer * numberOfChannels exampleBuffer"
    by (elim exE conjE)
  then show ?thesis
    using w f by (simp add: exampleBuffer_def)
qed

text \<open>
  Claim C5. Every sample the encoder writes is stored as the little-endian signed 16-bit
  integer obtained by clamping the sample to \<open>[-1, 1]\<close>, multiplying a negative value by
  \<open>32768\<close> and any other by \<open>32767\<close>, and dropping the fraction: the 16-bit field at offset
  \<open>44 + 2 * (i * C + c)\<close> reads back as \<open>quantize\<close> of sample \<open>i\<close> of channel \<open>c\<close>. The
  value always lies in the signed 16-bit range, so the conversion never wraps.
\<close>

theorem convertToWav_sample:
  assumes "wellFormed b" and "convertToWav b = Some out"
    and "i < length_buf b" and "c < numberOfChannels b"
  shows "getInt16 out (44 + 2 * (i * numberOfChannels b + c)) = quantize (channelData b ! c ! i) \<and>
         - 32768 \<le> quantize (channelData b ! c ! i) \<and> quantize (channelData b ! c ! i) \<le> 32767"
proof -
  let ?k = "i * numberOfChannels b + c"
  have out: "out = wavHeader b @ pcmPayload b"
    using assms(2) by (simp add: convertToWav_eq)
  have "i * numberOfChannels b + c < i * numberOfChannels b + numberOfChannels b"
    using assms(4) by simp
  also have "\<dots> = Suc i * numberOfChannels b" by simp
  also have "\<dots> \<le> length_buf b * numberOfChannels b"
    using assms(3) by (intro mult_le_mono1) simp
  finally have k: "?k < length (interleave b)"
    by (simp add: length_interleave)
  have "getInt16 out (length (wavHeader b) + 2 * ?k) = quantize (interleave b ! ?k)"
    unfolding out pcmPayload_def by (rule getInt16_payload[OF k])
  then show ?thesis
    using assms(3,4) quantize_range[of "channelData b ! c ! i"]
    by (simp add: length_wavHeader interleave_nth)
qed


theorem convertToWav_sample_witness:
  "wellFormed exampleBuffer \<and>
   convertToWav exampleBuffer = Some (wavHeader exampleBuffer @ pcmPayload exampleBuffer) \<and>
   getInt16 (wavHeader exampleBuffer @ pcmPayload exampleBuffer) 44 = 16383 \<and>
   getInt16 (wavHeader exampleBuffer @ pcmPayload exampleBuffer) 46 = - 16384 \<and>
   getInt16 (wavHeader exampleBuffer @ pcmPayload exampleBuffer) 48 = - 32768 \<and>
   getInt16 (wavHeader exampleBuffer @ pcmPayload exampleBuffer) 50 = 32767"
proof -
  have w: "wellFormed exampleBuffer"
    by (simp add: wellFormed_def exampleBuffer_def)
  have h: "\<lfloor>32767 / 2 :: rat\<rfloor> = 16383"
    by (simp add: floor_eq_iff)
  note s = convertToWav_sample[OF w convertToWav_eq]
  show ?thesis
    using w s[of 0 0] s[of 0 1] s[of 1 0] s[of 1 1]
    by (simp add: convertToWav_eq exampleBuffer_def quantize_def h)
qed

section \<open>Title derivation: proofs\<close>

lemma trim_eq_Nil_iff: "trim s = [] \<longleftrightarrow> (\<forall>c \<in> set s. isWhiteSpace c)"
proof
  assume "trim s = []"
  then have "\<forall>c \<in> set (dropWhile isWhiteSpace s). isWhiteSpace c"
    by (simp add: trim_def dropWhile_eq_Nil_conv)
  then have "dropWhile isWhiteSpace s = []"
    by (metis dropWhile_eq_Nil_conv hd_dropWhile list.set_sel(1))
  then show "\<forall>c \<in> set s. isWhiteSpace c"
    by (simp add: dropWhile_eq_Nil_conv)
next
  assume "\<forall>c \<in> set s. isWhiteSpace c"
  then show "trim s = []"
    by (auto simp: trim_def dest: set_dropWhileD)
qed

lemma last_trim: "trim s \<noteq> [] \<Longrightarrow> \<not> isWhiteSpace (last (trim s))"
proof -
  assume a: "trim s \<noteq> []"
  let ?u = "dropWhile isWhiteSpace (rev (dropWhile isWhiteSpace s))"
  from a have "?u \<noteq> []" by (simp add: trim_def)
  then have "\<not> isWhiteSpace (hd ?u)" by (rule hd_dropWhile)
  moreover have "last (trim s) = hd ?u"
    using \<open>?u \<noteq> []\<close> by (simp add: trim_def last_rev)
  ultimately show ?thesis by simp
qed

lemma heading_title_nonempty:
  assumes "startsWithHash line" and "line \<noteq> [] \<Longrightarrow> \<not> isWhiteSpace (last line)"
  shows "trim (replaceHeadingMarker line) \<noteq> []"
proof -
  from assms(1) obtain cs where l: "line = 35 # cs"
    by (cases line) auto
  have h: "\<not> isWhiteSpace 35" by (simp add: isWhiteSpace_def)
  let ?a = "dropWhile (\<lambda>c. c = 35) line"
  show ?thesis
  proof (cases "takeWhile (\<lambda>c. c = 35) line \<noteq> [] \<and> takeWhile isWhiteSpace ?a \<noteq> []")
    case True
    then have r: "replaceHeadingMarker line = dropWhile isWhiteSpace ?a"
      by (simp add: replaceHeadingMarker_def Let_def)
    from True have ne: "?a \<noteq> []" by (metis takeWhile.simps(1))
    have "last ?a = last line"
      using ne by (metis last_appendR takeWhile_dropWhile_id)
    then have "\<not> isWhiteSpace (last ?a)"
      using assms(2) l by simp
    then have "dropWhile isWhiteSpace ?a \<noteq> []"
      using ne by (metis dropWhile_eq_Nil_conv last_in_set)
    then have "\<not> isWhiteSpace (hd (dropWhile isWhiteSpace ?a))"
      by (rule hd_dropWhile)
    then have "\<not> (\<forall>c \<in> set (dropWhile isWhiteSpace ?a). isWhiteSpace c)"
      using \<open>dropWhile isWhiteSpace ?a \<noteq> []\<close> by (meson list.set_sel(1))
    then show ?thesis by (simp add: r trim_eq_Nil_iff)
  next
    case False
    then have "replaceHeadingMarker line = line"
      by (auto simp: replaceHeadingMarker_def Let_def)
    then show ?thesis using l h by (auto simp: trim_eq_Nil_iff)
  qed
qed

lemma headingLoop_find:
  assumes "\<forall>line \<in> set lines. line \<noteq> [] \<longrightarrow> \<not> isWhiteSpace (last line)"
  shows "headingLoop lines =
           (case find startsWithHash lines of
              None \<Rightarrow> None
            | Some line \<Rightarrow> Some (trim (replaceHeadingMarker line)))"
  using assms
proof (induction lines)
  case Nil
  then show ?case by simp
next
  case (Cons line lines)
  show ?case
  proof (cases "startsWithHash line")
    case True
    then have "trim (replaceHeadingMarker line) \<noteq> []"
      using Cons.prems by (intro heading_title_nonempty) auto
    with True show ?thesis by (simp add: Let_def)
  next
    case False
    with Cons show ?thesis by simp
  qed
qed

lemma potentialTitle_Nil: "potentialTitle [] = []"
  by (simp add: potentialTitle_def trim_def)

lemma fallbackLoop_find:
  "fallbackLoop lines =
     (case find (\<lambda>line. length (potentialTitle line) > 3) lines of
        None \<Rightarrow> None
      | Some line \<Rightarrow>
          Some (take 60 (potentialTitle line) @
                (if length (potentialTitle line) > 60 then js ''...'' else [])))"
proof (induction lines)
  case Nil
  then show ?case by simp
next
  case (Cons line lines)
  then show ?case
    by (cases "line = []") (simp_all add: Let_def potentialTitle_Nil)
qed

lemma derivedTitle_codeTitle: "derivedTitle polishedText = codeTitle polishedText"
proof -
  let ?lines = "map trim (split_lines polishedText)"
  have "\<forall>line \<in> set ?lines. line \<noteq> [] \<longrightarrow> \<not> isWhiteSpace (last line)"
    by (auto simp: last_trim)
  from headingLoop_find[OF this] show ?thesis
    unfolding derivedTitle_def codeTitle_def Let_def
    by (simp add: fallbackLoop_find split: option.splits)
qed

text \<open>
  Claim C8, as amended. What \<open>updateNoteTitle\<close> computes from the refined text, whenever
  it runs: over the trimmed lines, the first line that begins with a number sign gives the
  title, namely that line with a leading run of number signs and the white space after it
  removed (a run that is not followed by white space stays) and the rest trimmed; when no
  line begins with a number sign, the first line whose text, after the leading markers,
  digits and white space and the trailing emphasis markers are stripped, is longer than
  three code units gives the title, cut to 60 code units and followed by three full stops
  when it was longer; when no line qualifies, the title element gets its placeholder.
  The specification's two examples come out as it says. How often the derivation runs in
  a session is not part of this statement.
\<close>

theorem updateNoteTitle_policy:
  "derivedTitle polishedText = codeTitle polishedText \<and>
   updateNoteTitle_el polishedText None = None \<and>
   updateNoteTitle_el polishedText (Some el) =
     Some (case codeTitle polishedText of
             Some title \<Rightarrow> el\<lparr>textContent := title, placeholderActive := False\<rparr>
           | None \<Rightarrow> el\<lparr>textContent := placeholder el, placeholderActive := True\<rparr>) \<and>
   derivedTitle (js ''# Weekly Sync'' @ [10, 10] @ js ''Discussed budget.'') = Some (js ''Weekly Sync'') \<and>
   derivedTitle (js ''- Review action items and owners'') = Some (js ''Review action items and owners'')"
proof (intro conjI)
  show "derivedTitle polishedText = codeTitle polishedText"
    by (rule derivedTitle_codeTitle)
  show "updateNoteTitle_el polishedText None = None"
    by (simp add: updateNoteTitle_el_def)
  show "updateNoteTitle_el polishedText (Some el) =
     Some (case codeTitle polishedText of
             Some title \<Rightarrow> el\<lparr>textContent := title, placeholderActive := False\<rparr>
           | None \<Rightarrow> el\<lparr>textContent := placeholder el, placeholderActive := True\<rparr>)"
    by (simp add: updateNoteTitle_el_def setPlaceholder_def derivedTitle_codeTitle split: option.splits)
  show "derivedTitle (js ''# Weekly Sync'' @ [10, 10] @ js ''Discussed budget.'') = Some (js ''Weekly Sync'')"
    by (simp add: derivedTitle_def trim_def isWhiteSpace_def replaceHeadingMarker_def Let_def)
  show "derivedTitle (js ''- Review action items and owners'') = Some (js ''Review action items and owners'')"
    by (simp add: derivedTitle_def trim_def isWhiteSpace_def potentialTitle_def isLeadingMarker_def
        isTrailingMarker_def Let_def)
qed

text \<open>
  The claim as the specification words it fails on the code in three ways. A short first
  line does not leave the title unset: the scan goes on to the next line. Trailing emphasis
  markers are stripped as well as leading ones. A number sign that is not followed by white
  space is kept.
\<close>

theorem updateNoteTitle_counterexample:
  "derivedTitle (js ''Hi'' @ [10] @ js ''Longer line here'') = Some (js ''Longer line here'') \<and>
   specTitle (js ''Hi'' @ [10] @ js ''Longer line here'') = None \<and>
   derivedTitle (js ''**Bold title**'') = Some (js ''Bold title'') \<and>
   specTitle (js ''**Bold title**'') = Some (js ''Bold title**'') \<and>
   derivedTitle (js ''#Title'') = Some (js ''#Title'') \<and>
   specTitle (js ''#Title'') = Some (js ''Title'')"
  by (simp add: derivedTitle_def specTitle_def trim_def isWhiteSpace_def replaceHeadingMarker_def
      isLeadingMarker_def isTrailingMarker_def potentialTitle_def Let_def)

section \<open>Stopping a session: proofs\<close>

lemma waitForQueue_bound:
  "attempts \<le> 50 \<Longrightarrow> fst (waitForQueue env attempts s) \<le> 50"
proof (induction env attempts s rule: waitForQueue.induct)
  case (1 env attempts s)
  show ?case
  proof (cases "(length (processingQueue s) > 0 \<or> isProcessingSegment s) \<and> attempts < 50")
    case True
    then have "waitForQueue env attempts s = waitForQueue env (attempts + 1) (env attempts s)"
      by (subst waitForQueue.simps) simp
    moreover have "fst (waitForQueue env (attempts + 1) (env attempts s)) \<le> 50"
      using True by (intro "1.IH") auto
    ultimately show ?thesis by simp
  next
    case False
    then have "waitForQueue env attempts s = (attempts, s)"
      by (subst waitForQueue.simps) auto
    then show ?thesis using "1.prems" by simp
  qed
qed

lemma waitForQueue_stuck:
  "\<forall>k s. isProcessingSegment (env k s) \<Longrightarrow> isProcessingSegment s \<Longrightarrow> attempts \<le> 50 \<Longrightarrow>
   fst (waitForQueue env attempts s) = 50"
proof (induction env attempts s rule: waitForQueue.induct)
  case (1 env attempts s)
  show ?case
  proof (cases "attempts < 50")
    case True
    then have "waitForQueue env attempts s = waitForQueue env (attempts + 1) (env attempts s)"
      using "1.prems" by (subst waitForQueue.simps) simp
    moreover have "fst (waitForQueue env (attempts + 1) (env attempts s)) = 50"
      using True "1.prems" by (intro "1.IH") auto
    ultimately show ?thesis by simp
  next
    case False
    then have "waitForQueue env attempts s = (attempts, s)"
      by (subst waitForQueue.simps) auto
    then show ?thesis using "1.prems" False by simp
  qed
qed

lemma stopDualRecording_torn_down:
  "\<not> isRecording (stopDualRecording s) \<and> \<not> capturing primary (stopDualRecording s) \<and>
   \<not> capturing secondary (stopDualRecording s) \<and> \<not> segmentIntervalId (stopDualRecording s)"
  by (simp add: stopDualRecording_def stopLiveDisplay_def cleanupAnimations_def stopRecorder_def
      setRecorder_def capturing_def getRecorder_def Let_def)

lemma cleanupStreams_fields:
  "stream (cleanupStreams s) = None" "screenStream (cleanupStreams s) = None"
  "micStream (cleanupStreams s) = None" "isRecording (cleanupStreams s) = isRecording s"
  "capturing type (cleanupStreams s) = capturing type s"
  "segmentIntervalId (cleanupStreams s) = segmentIntervalId s"
  by (simp_all add: cleanupStreams_def capturing_def getRecorder_def split: RecorderType.splits)

text \<open>
  When the queue never drains, the wait takes its full 50 sleeps and then ends.
\<close>

lemma stopContinuousRecording_stuck_queue:
  assumes "\<forall>k s. isProcessingSegment (env k s)" and "isRecording s" and "isProcessingSegment s"
  shows "fst (stopContinuousRecording env s) = 50"
proof -
  let ?s1 = "cleanupAnimations (s\<lparr>isContinuousMode := False\<rparr>)"
  have rec: "isRecording ?s1" using assms(2) by (simp add: cleanupAnimations_def)
  have p: "isProcessingSegment (finalizeContinuousRecording_begin ?s1)"
    using assms(3)
    by (simp add: finalizeContinuousRecording_begin_def cleanupAnimations_def stopRecorder_def
        setRecorder_def split: RecorderType.splits)
  have "fst (waitForQueue env 0 (finalizeContinuousRecording_begin ?s1)) = 50"
    by (rule waitForQueue_stuck[OF assms(1) p]) simp
  then show ?thesis
    using rec by (simp add: stopContinuousRecording_def Let_def finalizeContinuousRecording_def split_beta)
qed

text \<open>
  Claim C10. A user-initiated stop always completes. Whatever the other handlers do during
  the sleeps, the loop of \<open>finalizeContinuousRecording\<close> sleeps at most 50 times (50 times
  200 ms, about ten seconds); \<open>stopContinuousRecording\<close> then goes on to
  \<open>stopDualRecording\<close> and \<open>cleanupStreams\<close>, after which nothing is recording, no
  recorder captures, the segment timer is cleared and the three streams are released. The
  model is a total function of an arbitrary environment, so this covers the runs in which
  the queue is still not empty or a segment is still being processed when the bound is
  reached.
\<close>

theorem stopContinuousRecording_completes:
  "fst (stopContinuousRecording env s) \<le> 50 \<and>
   \<not> isRecording (snd (stopContinuousRecording env s)) \<and>
   \<not> capturing primary (snd (stopContinuousRecording env s)) \<and>
   \<not> capturing secondary (snd (stopContinuousRecording env s)) \<and>
   \<not> segmentIntervalId (snd (stopContinuousRecording env s)) \<and>
   stream (snd (stopContinuousRecording env s)) = None \<and>
   screenStream (snd (stopContinuousRecording env s)) = None \<and>
   micStream (snd (stopContinuousRecording env s)) = None"
proof -
  let ?s1 = "cleanupAnimations (s\<lparr>isContinuousMode := False\<rparr>)"
  obtain sleeps s2 where w: "(if isRecording ?s1 then finalizeContinuousRecording env ?s1 else (0, ?s1)) = (sleeps, s2)"
    by (cases "if isRecording ?s1 then finalizeContinuousRecording env ?s1 else (0, ?s1)")
  have r: "stopContinuousRecording env s = (sleeps, cleanupStreams (stopDualRecording s2))"
    by (simp add: stopContinuousRecording_def Let_def w)
  have "sleeps \<le> 50"
  proof (cases "isRecording ?s1")
    case True
    with w have "sleeps = fst (waitForQueue env 0 (finalizeContinuousRecording_begin ?s1))"
      by (simp add: finalizeContinuousRecording_def)
    then show ?thesis by (simp add: waitForQueue_bound)
  next
    case False
    with w show ?thesis by simp
  qed
  then show ?thesis
    using stopDualRecording_torn_down[of s2]
    by (simp add: r cleanupStreams_fields)
qed

section \<open>Evaluating the model on concrete runs\<close>

lemmas app_defs = run_def newApp_def createNewNote_def toggleRecording_def
  startContinuousRecording_begin_def startContinuousRecording_resume_def
  startContinuousRecording_failed_def stopContinuousRecording_begin_def
  stopContinuousRecording_end_def finalizeContinuousRecording_begin_def
  stopDualRecording_def startDualRecording_def switchRecorders_def segmentTimerCallback_def
  setupSegmentTimer_def setupFinalStream_def setupAudioTags_def handleRecordingError_def
  stopLiveDisplay_def cleanupAnimations_def cleanupStreams_def
  startRecorder_def stopRecorder_def getRecorder_def setRecorder_def otherRecorder_def capturing_def
  onstop_def ondataavailable_def processNextSegment_begin_def processNextSegment_finally_def
  endFlight_def setPlaceholder_def Let_def

lemmas example_defs = transcribedAs_def transcriptionFails_def exampleQueue_def exampleTitle_def

lemmas processing_defs = processAudioSegment_def processAudioSegment_transcribe_def
  getSegmentTranscription_response_def getPolishedNote_request_def getPolishedNote_response_def
  transcribedBlock_def addAudioTags_def convertToWav_eq Let_def

lemma showNat_digit: "n < 10 \<Longrightarrow> showNat n = [48 + n]"
  by (simp add: showNat.simps)

section \<open>The recorder slots: proofs\<close>

lemmas slot_defs = capturing_def getRecorder_def setRecorder_def otherRecorder_def
  stopRecorder_def startRecorder_def

lemma all_RecorderType: "(\<forall>type. P type) \<longleftrightarrow> P primary \<and> P secondary"
  by (metis RecorderType.exhaust)

lemma slotsConsistent_cong:
  "slotFields s' = slotFields s \<Longrightarrow> slotsConsistent s' = slotsConsistent s"
  by (auto simp: slotFields_def slotsConsistent_def slot_defs all_RecorderType split: RecorderType.splits)

lemma chunksEmpty_cong:
  "primaryAudioChunks s' = primaryAudioChunks s \<Longrightarrow> secondaryAudioChunks s' = secondaryAudioChunks s \<Longrightarrow>
   chunksEmpty s' = chunksEmpty s"
  by (simp add: chunksEmpty_def)

subsection \<open>What the queue leaves alone\<close>

lemma begin_frame:
  "slotFields (processNextSegment_begin s) = slotFields s"
  "primaryAudioChunks (processNextSegment_begin s) = primaryAudioChunks s"
  "secondaryAudioChunks (processNextSegment_begin s) = secondaryAudioChunks s"
  by (simp_all add: processNextSegment_begin_def slotFields_def Let_def)

lemma finally_frame:
  "slotFields (processNextSegment_finally s) = slotFields s"
  "primaryAudioChunks (processNextSegment_finally s) = primaryAudioChunks s"
  "secondaryAudioChunks (processNextSegment_finally s) = secondaryAudioChunks s"
  by (simp_all add: processNextSegment_finally_def slotFields_def Let_def)

lemma endFlight_frame:
  "slotFields (endFlight segment phase s) = slotFields s"
  "primaryAudioChunks (endFlight segment phase s) = primaryAudioChunks s"
  "secondaryAudioChunks (endFlight segment phase s) = secondaryAudioChunks s"
  by (simp_all add: endFlight_def slotFields_def)

lemma polish_response_frame:
  "slotFields (getPolishedNote_response r s) = slotFields s"
  "primaryAudioChunks (getPolishedNote_response r s) = primaryAudioChunks s"
  "secondaryAudioChunks (getPolishedNote_response r s) = secondaryAudioChunks s"
  by (simp_all add: getPolishedNote_response_def slotFields_def Let_def
      split: Promise.splits option.splits)

lemma transcribe_frame:
  assumes "processAudioSegment_transcribe r segment s = Finished s' \<or>
           processAudioSegment_transcribe r segment s = AwaitingPolish s'"
  shows "slotFields s' = slotFields s"
    and "primaryAudioChunks s' = primaryAudioChunks s"
    and "secondaryAudioChunks s' = secondaryAudioChunks s"
  using assms
  by (auto simp: processAudioSegment_transcribe_def getSegmentTranscription_response_def
      getPolishedNote_request_def slotFields_def Let_def
      split: if_splits Promise.splits option.splits)


lemma ondataavailable_frame: "slotFields (ondataavailable type dataSize s) = slotFields s"
  by (simp add: ondataavailable_def slotFields_def split: RecorderType.splits)

lemma onstop_frame: "slotFields (onstop type now s) = slotFields s"
  by (simp add: onstop_def slotFields_def Let_def processNextSegment_begin_def split: RecorderType.splits)

lemma flush_chunksEmpty:
  "chunksEmpty s \<Longrightarrow> chunksEmpty (onstop type now (ondataavailable type dataSize s))"
  by (simp add: chunksEmpty_def onstop_def ondataavailable_def Let_def processNextSegment_begin_def
      split: RecorderType.splits)

lemma flush_nothing:
  "chunksEmpty s \<Longrightarrow> onstop type now (ondataavailable type 0 s) = s"
  by (simp add: chunksEmpty_def onstop_def ondataavailable_def Let_def split: RecorderType.splits)

subsection \<open>The slot operations\<close>

lemma slotsConsistent_newApp: "slotsConsistent (newApp title now) \<and> chunksEmpty (newApp title now)"
  by (simp add: slotsConsistent_def chunksEmpty_def newApp_def createNewNote_def stopLiveDisplay_def
      cleanupAnimations_def slot_defs all_RecorderType)

lemma stopDualRecording_inv:
  "slotsConsistent s \<Longrightarrow> slotsConsistent (stopDualRecording s)"
  "chunksEmpty (stopDualRecording s) = chunksEmpty s"
  by (auto simp: slotsConsistent_def chunksEmpty_def stopDualRecording_def stopLiveDisplay_def
      cleanupAnimations_def slot_defs Let_def all_RecorderType split: RecorderType.splits)

lemma createNewNote_inv:
  "slotsConsistent s \<Longrightarrow> slotsConsistent (createNewNote now s)"
  "chunksEmpty (createNewNote now s) = chunksEmpty s"
  by (auto simp: slotsConsistent_def chunksEmpty_def createNewNote_def stopDualRecording_def
      stopLiveDisplay_def cleanupAnimations_def slot_defs Let_def all_RecorderType
      split: RecorderType.splits)

lemma toggleRecording_inv:
  "slotsConsistent s \<Longrightarrow> slotsConsistent (toggleRecording s)"
  "chunksEmpty (toggleRecording s) = chunksEmpty s"
  by (auto simp: slotsConsistent_def chunksEmpty_def toggleRecording_def
      startContinuousRecording_begin_def stopContinuousRecording_begin_def
      stopContinuousRecording_end_def finalizeContinuousRecording_begin_def
      stopDualRecording_def cleanupStreams_def
      stopLiveDisplay_def cleanupAnimations_def slot_defs Let_def all_RecorderType
      split: RecorderType.splits)

lemma stop_end_inv:
  "slotsConsistent s \<Longrightarrow> slotsConsistent (stopContinuousRecording_end (s\<lparr>pendingStops := n\<rparr>))"
  "chunksEmpty (stopContinuousRecording_end (s\<lparr>pendingStops := n\<rparr>)) = chunksEmpty s"
  by (auto simp: slotsConsistent_def chunksEmpty_def stopContinuousRecording_end_def
      stopDualRecording_def cleanupStreams_def
      stopLiveDisplay_def cleanupAnimations_def slot_defs Let_def all_RecorderType
      split: RecorderType.splits)

lemma start_failed_inv:
  "slotsConsistent s \<Longrightarrow> slotsConsistent (startContinuousRecording_failed s)"
  "chunksEmpty (startContinuousRecording_failed s) = chunksEmpty s"
  by (auto simp: slotsConsistent_def chunksEmpty_def startContinuousRecording_failed_def
      handleRecordingError_def cleanupStreams_def
      stopLiveDisplay_def cleanupAnimations_def slot_defs Let_def all_RecorderType
      split: RecorderType.splits)

lemma start_resume_inv:
  "slotsConsistent s \<Longrightarrow> slotsConsistent (startContinuousRecording_resume screen mic now s)"
  "chunksEmpty s \<Longrightarrow> chunksEmpty (startContinuousRecording_resume screen mic now s)"
  by (auto simp: slotsConsistent_def chunksEmpty_def startContinuousRecording_resume_def
      startDualRecording_def setupSegmentTimer_def setupFinalStream_def setupAudioTags_def
      handleRecordingError_def cleanupStreams_def
      stopLiveDisplay_def cleanupAnimations_def slot_defs Let_def all_RecorderType
      split: RecorderType.splits option.splits if_splits)

lemma not_recording: "(x \<noteq> recording) = (x = inactive)"
  by (cases x) auto

lemma switchRecorders_inv:
  "slotsConsistent s \<Longrightarrow> slotsConsistent (segmentTimerCallback now s)"
  "chunksEmpty (segmentTimerCallback now s) = chunksEmpty s"
  by (auto simp: slotsConsistent_def chunksEmpty_def segmentTimerCallback_def switchRecorders_def
      slot_defs Let_def all_RecorderType not_recording
      split: RecorderType.splits option.splits if_splits)


subsection \<open>Every reachable state\<close>

lemma handleEvent_inv:
  assumes "slotsConsistent s \<and> chunksEmpty s"
  shows "slotsConsistent (handleEvent e s) \<and> chunksEmpty (handleEvent e s)"
proof (cases e)
  case RecordButtonClicked
  then show ?thesis using assms by (simp add: toggleRecording_inv)
next
  case (StreamsAcquired screen mic now)
  then show ?thesis using assms by (simp add: start_resume_inv)
next
  case StreamsFailed
  then show ?thesis using assms by (simp add: start_failed_inv)
next
  case (SegmentTimerFired now)
  then show ?thesis using assms by (simp add: switchRecorders_inv)
next
  case (RecorderFlushed type dataSize now)
  let ?s = "s\<lparr>pendingFlushes := remove1 type (pendingFlushes s)\<rparr>"
  have f: "slotFields ?s = slotFields s" by (simp add: slotFields_def)
  have "slotsConsistent ?s" "chunksEmpty ?s"
    using assms slotsConsistent_cong[OF f] by (simp_all add: chunksEmpty_def)
  then have "slotsConsistent (onstop type now (ondataavailable type dataSize ?s))"
    and "chunksEmpty (onstop type now (ondataavailable type dataSize ?s))"
    using slotsConsistent_cong[of "onstop type now (ondataavailable type dataSize ?s)" ?s]
    by (simp_all add: onstop_frame ondataavailable_frame flush_chunksEmpty)
  then show ?thesis using RecorderFlushed assms by simp
next
  case DrainTimeoutFired
  let ?s = "s\<lparr>scheduledDrains := scheduledDrains s - 1\<rparr>"
  have f: "slotFields (processNextSegment_begin ?s) = slotFields s"
    by (simp add: begin_frame) (simp add: slotFields_def)
  show ?thesis
    using DrainTimeoutFired assms slotsConsistent_cong[OF f]
      chunksEmpty_cong[of "processNextSegment_begin ?s" s]
    by (simp add: begin_frame)
next
  case (TranscriptionSettled segment r)
  show ?thesis
  proof (cases "(segment, Transcribing) \<in> set (inFlight s)")
    case False
    then show ?thesis using TranscriptionSettled assms by simp
  next
    case True
    show ?thesis
    proof (cases "processAudioSegment_transcribe r segment s")
      case (Threw err)
      let ?s' = "processNextSegment_finally (endFlight segment Transcribing s)"
      have "slotFields ?s' = slotFields s"
        by (simp add: finally_frame endFlight_frame)
      from slotsConsistent_cong[OF this] chunksEmpty_cong[of ?s' s]
      show ?thesis using TranscriptionSettled True Threw assms
        by (simp add: finally_frame endFlight_frame)
    next
      case (Finished s1)
      let ?s' = "processNextSegment_finally (endFlight segment Transcribing s1)"
      have "slotFields ?s' = slotFields s"
        using transcribe_frame(1)[of r segment s s1] Finished
        by (simp add: finally_frame endFlight_frame)
      from slotsConsistent_cong[OF this] chunksEmpty_cong[of ?s' s]
      show ?thesis using TranscriptionSettled True Finished assms transcribe_frame(2,3)[of r segment s s1]
        by (simp add: finally_frame endFlight_frame)
    next
      case (AwaitingPolish s1)
      let ?s' = "(endFlight segment Transcribing s1)\<lparr>inFlight :=
                   remove1 (segment, Transcribing) (inFlight s1) @ [(segment, Polishing)]\<rparr>"
      have "slotFields ?s' = slotFields s"
        using transcribe_frame(1)[of r segment s s1] AwaitingPolish
        by (simp add: slotFields_def endFlight_def)
      from slotsConsistent_cong[OF this] chunksEmpty_cong[of ?s' s]
      show ?thesis using TranscriptionSettled True AwaitingPolish assms transcribe_frame(2,3)[of r segment s s1]
        by (simp add: endFlight_def)
    qed
  qed
next
  case (PolishSettled segment r)
  let ?s' = "processNextSegment_finally (endFlight segment Polishing (getPolishedNote_response r s))"
  have "slotFields ?s' = slotFields s"
    by (simp add: finally_frame endFlight_frame polish_response_frame)
  from slotsConsistent_cong[OF this] chunksEmpty_cong[of ?s' s]
  show ?thesis using PolishSettled assms
    by (simp add: finally_frame endFlight_frame polish_response_frame)
next
  case StopWaitOver
  then show ?thesis using assms by (simp add: stop_end_inv)
next
  case (NewButtonClicked now)
  then show ?thesis using assms by (simp add: createNewNote_inv)
qed

lemma run_snoc: "run (events @ [e]) s = handleEvent e (run events s)"
  by (simp add: run_def)

lemma run_inv: "slotsConsistent (run events (newApp title now)) \<and> chunksEmpty (run events (newApp title now))"
proof (induction events rule: rev_induct)
  case Nil
  then show ?case using slotsConsistent_newApp by (simp add: run_def)
next
  case (snoc e events)
  then show ?case by (simp only: run_snoc handleEvent_inv)
qed

lemma rotation_step:
  assumes "slotsConsistent s" and "isContinuousMode s" and "isRecording s"
  shows "activeRecorder (segmentTimerCallback now s) = otherRecorder (activeRecorder s) \<and>
         \<not> capturing (activeRecorder s) (segmentTimerCallback now s) \<and>
         capturing (otherRecorder (activeRecorder s)) (segmentTimerCallback now s) \<and>
         effects (segmentTimerCallback now s) =
           effects s @ [RecorderStopRequested (activeRecorder s),
                        RecorderStarted (otherRecorder (activeRecorder s))]"
  using assms
  by (auto simp: slotsConsistent_def segmentTimerCallback_def switchRecorders_def
      slot_defs Let_def all_RecorderType not_recording
      split: RecorderType.splits option.splits if_splits)

text \<open>
  Claim C3. In every state the application can reach from its initial state, by any
  sequence of tasks, the two slots never capture at the same time, and while recording is
  on exactly the active slot captures. Recording is on when \<open>isContinuousMode\<close> and
  \<open>isRecording\<close> both hold: this is the guard of the segment timer and of
  \<open>switchRecorders\<close>. (After the user asks to stop, \<open>isContinuousMode\<close> is false at once;
  \<open>isRecording\<close> alone stays true, with no slot capturing, until the wait for the queue is
  over.) When the segment timer fires while recording is on, its callback, one synchronous
  step, stops the active recorder and starts the other one, which becomes the active slot:
  the two calls follow each other in the log with nothing between them.
\<close>

theorem recorder_rotation:
  "\<not> (capturing primary (run events (newApp title t0)) \<and>
      capturing secondary (run events (newApp title t0))) \<and>
   (isContinuousMode (run events (newApp title t0)) \<and> isRecording (run events (newApp title t0)) \<longrightarrow>
      capturing (activeRecorder (run events (newApp title t0))) (run events (newApp title t0)) \<and>
      \<not> capturing (otherRecorder (activeRecorder (run events (newApp title t0))))
          (run events (newApp title t0)) \<and>
      activeRecorder (segmentTimerCallback now (run events (newApp title t0))) =
        otherRecorder (activeRecorder (run events (newApp title t0))) \<and>
      \<not> capturing (activeRecorder (run events (newApp title t0)))
          (segmentTimerCallback now (run events (newApp title t0))) \<and>
      capturing (otherRecorder (activeRecorder (run events (newApp title t0))))
        (segmentTimerCallback now (run events (newApp title t0))) \<and>
      effects (segmentTimerCallback now (run events (newApp title t0))) =
        effects (run events (newApp title t0)) @
          [RecorderStopRequested (activeRecorder (run events (newApp title t0))),
           RecorderStarted (otherRecorder (activeRecorder (run events (newApp title t0))))])"
proof -
  let ?s = "run events (newApp title t0)"
  have inv: "slotsConsistent ?s" using run_inv by blast
  then have one: "\<And>type. capturing type ?s \<Longrightarrow> type = activeRecorder ?s"
    by (simp add: slotsConsistent_def)
  have both: "\<not> (capturing primary ?s \<and> capturing secondary ?s)"
    using one[of primary] one[of secondary] by auto
  have other: "\<not> capturing (otherRecorder (activeRecorder ?s)) ?s"
    using one[of "otherRecorder (activeRecorder ?s)"]
    by (auto simp: otherRecorder_def split: RecorderType.splits)
  have on: "isContinuousMode ?s \<and> isRecording ?s \<longrightarrow> capturing (activeRecorder ?s) ?s"
    using inv by (simp add: slotsConsistent_def)
  show ?thesis
    using both other on rotation_step[OF inv, of now] by blast
qed

theorem recorder_rotation_witness:
  "isContinuousMode (run [RecordButtonClicked, StreamsAcquired None (MediaStream 1) 0] (newApp None 0)) \<and>
   isRecording (run [RecordButtonClicked, StreamsAcquired None (MediaStream 1) 0] (newApp None 0)) \<and>
   activeRecorder (run [RecordButtonClicked, StreamsAcquired None (MediaStream 1) 0] (newApp None 0)) = primary \<and>
   capturing primary (run [RecordButtonClicked, StreamsAcquired None (MediaStream 1) 0] (newApp None 0)) \<and>
   \<not> capturing secondary (run [RecordButtonClicked, StreamsAcquired None (MediaStream 1) 0] (newApp None 0)) \<and>
   \<not> capturing primary
       (segmentTimerCallback 120000
         (run [RecordButtonClicked, StreamsAcquired None (MediaStream 1) 0] (newApp None 0))) \<and>
   capturing secondary
     (segmentTimerCallback 120000
       (run [RecordButtonClicked, StreamsAcquired None (MediaStream 1) 0] (newApp None 0)))"
proof -
  let ?s = "run [RecordButtonClicked, StreamsAcquired None (MediaStream 1) 0] (newApp None 0)"
  have h: "isContinuousMode ?s" "isRecording ?s" "activeRecorder ?s = primary"
    by (simp_all add: app_defs)
  have o: "otherRecorder primary = secondary" by (simp add: otherRecorder_def)
  from recorder_rotation[of "[RecordButtonClicked, StreamsAcquired None (MediaStream 1) 0]" None 0 120000] h
  show ?thesis by (simp only: o simp_thms)
qed

text \<open>
  Claim C7. A recorder that stops without having captured any data enqueues nothing. In
  every reachable state, the \<open>dataavailable\<close> event with an empty blob followed by the
  \<open>stop\<close> event leaves the application's state exactly as it was: no segment is created,
  the queue is unchanged and \<open>processNextSegment\<close> is not called (the log is unchanged).
  This rests on the chunk lists being empty between tasks, which holds in every reachable
  state.
\<close>

theorem empty_flush_enqueues_nothing:
  "onstop type now (ondataavailable type 0 (run events (newApp title t0))) = run events (newApp title t0) \<and>
   processingQueue (handleEvent (RecorderFlushed type 0 now) (run events (newApp title t0))) =
     processingQueue (run events (newApp title t0)) \<and>
   effects (handleEvent (RecorderFlushed type 0 now) (run events (newApp title t0))) =
     effects (run events (newApp title t0)) \<and>
   inFlight (handleEvent (RecorderFlushed type 0 now) (run events (newApp title t0))) =
     inFlight (run events (newApp title t0)) \<and>
   isProcessingSegment (handleEvent (RecorderFlushed type 0 now) (run events (newApp title t0))) =
     isProcessingSegment (run events (newApp title t0))"
proof -
  let ?s = "run events (newApp title t0)"
  let ?t = "?s\<lparr>pendingFlushes := remove1 type (pendingFlushes ?s)\<rparr>"
  have c: "chunksEmpty ?s" using run_inv by blast
  then have "chunksEmpty ?t" by (simp add: chunksEmpty_def)
  then have "onstop type now (ondataavailable type 0 ?t) = ?t"
    by (rule flush_nothing)
  then show ?thesis
    using flush_nothing[OF c, of type now] by simp
qed
section \<open>The segment queue: proofs\<close>

lemma processAudioSegment_Inl:
  "processAudioSegment r segment s = Inl e \<Longrightarrow> transcribedBlock s segment r = []"
  by (auto simp: processing_defs split: if_splits option.splits Promise.splits Outcome.splits)

lemma processAudioSegment_Inr:
  assumes "processAudioSegment r segment s = Inr s'"
  shows "accumulatedTranscription s' = accumulatedTranscription s @ transcribedBlock s segment r"
    and "processingQueue s' = processingQueue s"
    and "isProcessingSegment s' = isProcessingSegment s"
    and "openingTags s' = openingTags s" and "closingTags s' = closingTags s"
    and "scheduledDrains s' = scheduledDrains s"
  using assms
  by (auto simp: processing_defs split: if_splits option.splits Promise.splits Outcome.splits)


lemma transcribedBlock_cong:
  "openingTags s' = openingTags s \<Longrightarrow> closingTags s' = closingTags s \<Longrightarrow>
   transcribedBlock s' segment r = transcribedBlock s segment r"
  by (auto simp: transcribedBlock_def addAudioTags_def split: Promise.splits option.splits)

lemma processNextSegment_step:
  assumes "\<not> isProcessingSegment s" and "processingQueue s = segment # q"
  shows "accumulatedTranscription (processNextSegment r s) =
           accumulatedTranscription s @ transcribedBlock s segment r"
    and "processingQueue (processNextSegment r s) = q"
    and "\<not> isProcessingSegment (processNextSegment r s)"
    and "openingTags (processNextSegment r s) = openingTags s"
    and "closingTags (processNextSegment r s) = closingTags s"
    and "q \<noteq> [] \<Longrightarrow> scheduledDrains (processNextSegment r s) > 0"
proof -
  let ?s1 = "processNextSegment_begin s"
  have b: "accumulatedTranscription ?s1 = accumulatedTranscription s" "processingQueue ?s1 = q"
    "openingTags ?s1 = openingTags s" "closingTags ?s1 = closingTags s"
    using assms by (simp_all add: processNextSegment_begin_def Let_def)
  have t: "transcribedBlock ?s1 segment r = transcribedBlock s segment r"
    by (rule transcribedBlock_cong) (simp_all add: b)
  have p: "processNextSegment r s =
      (case processAudioSegment r segment ?s1 of
         Inl e \<Rightarrow> processNextSegment_finally (endFlight segment Transcribing ?s1)
       | Inr s2 \<Rightarrow> processNextSegment_finally (endFlight segment Transcribing s2))"
    using assms by (simp add: processNextSegment_def Let_def)
  have f: "accumulatedTranscription (processNextSegment_finally (endFlight segment Transcribing x)) =
             accumulatedTranscription x"
    "processingQueue (processNextSegment_finally (endFlight segment Transcribing x)) = processingQueue x"
    "\<not> isProcessingSegment (processNextSegment_finally (endFlight segment Transcribing x))"
    "openingTags (processNextSegment_finally (endFlight segment Transcribing x)) = openingTags x"
    "closingTags (processNextSegment_finally (endFlight segment Transcribing x)) = closingTags x"
    "processingQueue x \<noteq> [] \<Longrightarrow>
       scheduledDrains (processNextSegment_finally (endFlight segment Transcribing x)) > 0" for x
    by (simp_all add: processNextSegment_finally_def endFlight_def Let_def)
  show "accumulatedTranscription (processNextSegment r s) =
           accumulatedTranscription s @ transcribedBlock s segment r"
    unfolding p
    by (cases "processAudioSegment r segment ?s1")
      (simp_all add: f b processAudioSegment_Inl[of r segment ?s1, unfolded t]
        processAudioSegment_Inr(1)[of r segment ?s1, unfolded t])
  show "processingQueue (processNextSegment r s) = q"
    unfolding p
    by (cases "processAudioSegment r segment ?s1")
      (simp_all add: f b processAudioSegment_Inr(2)[of r segment ?s1])
  show "\<not> isProcessingSegment (processNextSegment r s)"
    unfolding p
    by (cases "processAudioSegment r segment ?s1") (simp_all add: f)
  show "openingTags (processNextSegment r s) = openingTags s"
    unfolding p
    by (cases "processAudioSegment r segment ?s1")
      (simp_all add: f b processAudioSegment_Inr(4)[of r segment ?s1])
  show "closingTags (processNextSegment r s) = closingTags s"
    unfolding p
    by (cases "processAudioSegment r segment ?s1")
      (simp_all add: f b processAudioSegment_Inr(5)[of r segment ?s1])
  show "scheduledDrains (processNextSegment r s) > 0" if "q \<noteq> []"
    unfolding p using that
    by (cases "processAudioSegment r segment ?s1")
      (simp_all add: f b processAudioSegment_Inr(2)[of r segment ?s1])
qed

lemma drainRest_transcript:
  assumes "\<not> isProcessingSegment s" and "length rs = length (processingQueue s)"
    and "processingQueue s \<noteq> [] \<Longrightarrow> scheduledDrains s > 0"
  shows "accumulatedTranscription (drainRest rs s) =
           accumulatedTranscription s @
             concat (map (\<lambda>(segment, r). transcribedBlock s segment r) (zip (processingQueue s) rs)) \<and>
         processingQueue (drainRest rs s) = [] \<and> \<not> isProcessingSegment (drainRest rs s)"
  using assms
proof (induction rs arbitrary: s)
  case Nil
  then show ?case by simp
next
  case (Cons r rs)
  then obtain segment q where q: "processingQueue s = segment # q"
    by (cases "processingQueue s") auto
  define s0 where "s0 = s\<lparr>scheduledDrains := scheduledDrains s - 1\<rparr>"
  define s' where "s' = processNextSegment r s0"
  have d: "drainTimeout r s = s'"
    using Cons.prems(3) q by (simp add: drainTimeout_def s'_def s0_def)
  have p0: "\<not> isProcessingSegment s0" "processingQueue s0 = segment # q"
    using Cons.prems(1) q by (simp_all add: s0_def)
  have s0: "accumulatedTranscription s0 = accumulatedTranscription s"
    "openingTags s0 = openingTags s" "closingTags s0 = closingTags s"
    by (simp_all add: s0_def)
  note st = processNextSegment_step[OF p0, of r, folded s'_def]
  have tb: "transcribedBlock s0 segment r = transcribedBlock s segment r"
    by (rule transcribedBlock_cong[OF s0(2,3)])
  have o: "openingTags s' = openingTags s" "closingTags s' = closingTags s"
    using st(4,5) s0 by simp_all
  have tb': "transcribedBlock s' = transcribedBlock s"
    by (intro ext transcribedBlock_cong[OF o])
  have "accumulatedTranscription (drainRest rs s') =
           accumulatedTranscription s' @
             concat (map (\<lambda>(segment, r). transcribedBlock s' segment r) (zip (processingQueue s') rs)) \<and>
         processingQueue (drainRest rs s') = [] \<and> \<not> isProcessingSegment (drainRest rs s')"
    using Cons.prems(2) q st(2,3,6) by (intro Cons.IH) simp_all
  then show ?case
    unfolding tb' st(1) st(2) tb s0(1)
    by (simp add: d q)
qed

text \<open>
  Claim C6. A segment that fails does not stop the queue. Take a queue of segments, no
  segment being processed, and any replies of the environment, one record per segment.
  Each call of \<open>processNextSegment\<close> catches what \<open>processAudioSegment\<close> throws and
  schedules the next call while segments are queued. When the drain is over the queue is
  empty, the flag is released, and the raw transcript has grown by exactly the blocks of
  the transcribed segments, in queue order; a segment that failed (empty blob, decoding
  error, empty base64 text, rejected call, empty or absent text) contributes nothing.
\<close>

theorem drainQueue_failure_isolation:
  assumes "\<not> isProcessingSegment s" and "length rs = length (processingQueue s)"
  shows "accumulatedTranscription (drainQueue rs s) =
           accumulatedTranscription s @
             concat (map (\<lambda>(segment, r). transcribedBlock s segment r) (zip (processingQueue s) rs)) \<and>
         processingQueue (drainQueue rs s) = [] \<and> \<not> isProcessingSegment (drainQueue rs s)"
proof (cases rs)
  case Nil
  then show ?thesis using assms by simp
next
  case (Cons r rs')
  then obtain segment q where q: "processingQueue s = segment # q"
    using assms(2) by (cases "processingQueue s") auto
  let ?s' = "processNextSegment r s"
  note st = processNextSegment_step[OF assms(1) q, of r]
  have tb': "transcribedBlock ?s' x y = transcribedBlock s x y" for x y
    by (rule transcribedBlock_cong[OF st(4) st(5)])
  have "accumulatedTranscription (drainRest rs' ?s') =
           accumulatedTranscription ?s' @
             concat (map (\<lambda>(segment, r). transcribedBlock ?s' segment r) (zip (processingQueue ?s') rs')) \<and>
         processingQueue (drainRest rs' ?s') = [] \<and> \<not> isProcessingSegment (drainRest rs' ?s')"
    using assms(2) Cons q st(2,3,6) by (intro drainRest_transcript) simp_all
  then show ?thesis
    by (simp add: Cons q st(1,2) tb')
qed

theorem drainQueue_failure_isolation_witness:
  "\<not> isProcessingSegment ((newApp None 0)\<lparr>processingQueue := exampleQueue\<rparr>) \<and>
   length [transcribedAs (js ''first''), transcriptionFails, transcribedAs (js ''third'')] =
     length (processingQueue ((newApp None 0)\<lparr>processingQueue := exampleQueue\<rparr>)) \<and>
   accumulatedTranscription
     (drainQueue [transcribedAs (js ''first''), transcriptionFails, transcribedAs (js ''third'')]
        ((newApp None 0)\<lparr>processingQueue := exampleQueue\<rparr>)) =
     [10, 10] @ js ''=== SEGMENTO 2 ==='' @ [10] @ js ''first'' @
     [10, 10] @ js ''=== SEGMENTO 4 ==='' @ [10] @ js ''third''"
proof -
  let ?s = "(newApp None 0)\<lparr>processingQueue := exampleQueue\<rparr>"
  let ?rs = "[transcribedAs (js ''first''), transcriptionFails, transcribedAs (js ''third'')]"
  have h: "\<not> isProcessingSegment ?s" "length ?rs = length (processingQueue ?s)"
    by (simp_all add: app_defs exampleQueue_def)
  have e: "accumulatedTranscription ?s = []" "openingTags ?s = []" "closingTags ?s = []"
    "processingQueue ?s = exampleQueue"
    by (simp_all add: app_defs)
  have n: "openingTags (newApp None 0) = []" "closingTags (newApp None 0) = []"
    by (simp_all add: app_defs)
  have blocks: "concat (map (\<lambda>(segment, r). transcribedBlock ?s segment r) (zip (processingQueue ?s) ?rs)) =
      [10, 10] @ js ''=== SEGMENTO 2 ==='' @ [10] @ js ''first'' @
      [10, 10] @ js ''=== SEGMENTO 4 ==='' @ [10] @ js ''third''"
    unfolding e(4)
    by (simp add: n transcribedBlock_def addAudioTags_def example_defs segmentHeader_def
        showNat_digit trim_def isWhiteSpace_def)
  from drainQueue_failure_isolation[OF h]
  have r: "accumulatedTranscription (drainQueue ?rs ?s) =
          accumulatedTranscription ?s @
            concat (map (\<lambda>(segment, r). transcribedBlock ?s segment r) (zip (processingQueue ?s) ?rs))"
    by blast
  have "accumulatedTranscription (drainQueue ?rs ?s) =
      [10, 10] @ js ''=== SEGMENTO 2 ==='' @ [10] @ js ''first'' @
      [10, 10] @ js ''=== SEGMENTO 4 ==='' @ [10] @ js ''third''"
    unfolding r blocks e(1) by (rule append_Nil)
  with h show ?thesis by blast
qed
lemma polishPrompt_embeds: "polishPrompt transcript = polishPrompt [] @ transcript"
  by (simp add: polishPrompt_def)

text \<open>
  Claim C9. A segment that is transcribed adds exactly one block to the raw transcript, the
  segment header followed by the tagged, trimmed text, and the refinement call that
  follows is made with the prompt built from the whole transcript accumulated so far, the
  new block included: the prompt is the fixed instructions of the template (the prompt of
  the empty transcript) followed by every earlier block and then the new one. When the
  refinement returns a non-empty text, that text becomes the polished note, whatever the
  note was before; otherwise the polished note is unchanged.
  \<open>getPolishedNote\<close> first asks \<open>hasValidContent\<close> of the raw-transcript element, which
  reads the page; the statement is for a page on which that check succeeds, as it does
  when the element exists and shows the transcript just written to it.
\<close>

theorem transcribed_segment_is_refined:
  assumes "blob segment > 0" and "decoded r = Some audioBuffer" and "base64Audio r \<noteq> []"
    and "transcriptionReply r = Resolved (Some text)" and "text \<noteq> []"
    and "rawContentValid r"
  shows "\<exists>s'. processAudioSegment r segment s = Inr s' \<and>
           accumulatedTranscription s' =
             accumulatedTranscription s @ segmentHeader (segmentNumber segment) @ addAudioTags (trim text) s \<and>
           effects s' =
             effects s @ [TranscriptionRequested (segmentNumber segment),
                          PolishRequested (polishPrompt (accumulatedTranscription s'))] \<and>
           polishPrompt (accumulatedTranscription s') =
             polishPrompt [] @ accumulatedTranscription s @
               segmentHeader (segmentNumber segment) @ addAudioTags (trim text) s \<and>
           accumulatedPolishedNote s' =
             (case polishReply r of
                Resolved (Some polishedText) \<Rightarrow>
                  if polishedText = [] then accumulatedPolishedNote s else polishedText
              | _ \<Rightarrow> accumulatedPolishedNote s)"
proof -
  let ?t = "accumulatedTranscription s @ segmentHeader (segmentNumber segment) @ addAudioTags (trim text) s"
  have p: "polishPrompt ?t = polishPrompt [] @ ?t"
    by (rule polishPrompt_embeds)
  from assms have "\<exists>s'. processAudioSegment r segment s = Inr s' \<and>
           accumulatedTranscription s' = ?t \<and>
           effects s' =
             effects s @ [TranscriptionRequested (segmentNumber segment),
                          PolishRequested (polishPrompt (accumulatedTranscription s'))] \<and>
           accumulatedPolishedNote s' =
             (case polishReply r of
                Resolved (Some polishedText) \<Rightarrow>
                  if polishedText = [] then accumulatedPolishedNote s else polishedText
              | _ \<Rightarrow> accumulatedPolishedNote s)"
    by (auto simp: processAudioSegment_def processAudioSegment_transcribe_def
        getSegmentTranscription_response_def getPolishedNote_request_def getPolishedNote_response_def
        addAudioTags_def convertToWav_eq Let_def
        split: Promise.splits option.splits)
  then obtain s' where s': "processAudioSegment r segment s = Inr s'"
      "accumulatedTranscription s' = ?t"
      "effects s' =
         effects s @ [TranscriptionRequested (segmentNumber segment),
                      PolishRequested (polishPrompt (accumulatedTranscription s'))]"
      "accumulatedPolishedNote s' =
         (case polishReply r of
            Resolved (Some polishedText) \<Rightarrow>
              if polishedText = [] then accumulatedPolishedNote s else polishedText
          | _ \<Rightarrow> accumulatedPolishedNote s)"
    by blast
  have "polishPrompt (accumulatedTranscription s') = polishPrompt [] @ ?t"
    unfolding s'(2) by (rule p)
  with s' show ?thesis
    by blast
qed

text \<open>
  The theorem at work: the transcript holds \<open>first\<close>, the segment numbered 2 is transcribed
  as \<open>second\<close>, and the refinement is requested with the template's text followed by both.
\<close>

theorem transcribed_segment_is_refined_witness:
  "blob (hd exampleQueue) > 0 \<and> decoded (transcribedAs (js ''second'')) = Some exampleBuffer \<and>
   base64Audio (transcribedAs (js ''second'')) \<noteq> [] \<and>
   transcriptionReply (transcribedAs (js ''second'')) = Resolved (Some (js ''second'')) \<and>
   js ''second'' \<noteq> [] \<and> rawContentValid (transcribedAs (js ''second'')) \<and>
   (\<exists>s'. processAudioSegment (transcribedAs (js ''second'')) (hd exampleQueue)
            ((newApp None 0)\<lparr>accumulatedTranscription := js ''first''\<rparr>) = Inr s' \<and>
         accumulatedTranscription s' =
           js ''first'' @ [10, 10] @ js ''=== SEGMENTO 2 ==='' @ [10] @ js ''second'' \<and>
         effects s' =
           [TranscriptionRequested 2,
            PolishRequested
              (polishPrompt (js ''first'' @ [10, 10] @ js ''=== SEGMENTO 2 ==='' @ [10] @ js ''second''))] \<and>
         polishPrompt (accumulatedTranscription s') =
           js ''Pegue nesta transcri'' @
           [231, 227] @
           js ''o bruta e crie uma nota bem formatada e melhorada.'' @
           [10] @
           js ''                    Remova palavras de preenchimento (hum, a'' @
           js ''h, tipo), repeti'' @
           [231, 245] @
           js ''es e falsos come'' @
           [231] @
           js ''os.'' @
           [10] @
           js ''                    Formate corretamente quaisquer listas ou'' @
           js '' marcadores. Use formata'' @
           [231, 227] @
           js ''o markdown para t'' @
           [237] @
           js ''tulos, listas, etc.'' @
           [10] @
           js ''                    Mantenha todo o conte'' @
           [250] @
           js ''do e significado original.'' @
           [10] @
           js ''                    Esta '' @
           [233] @
           js '' uma transcri'' @
           [231, 227] @
           js ''o de m'' @
           [250] @
           js ''ltiplos segmentos de uma reuni'' @
           [227] @
           js ''o cont'' @
           [237] @
           js ''nua.'' @
           [10, 10] @
           js ''                    Transcri'' @
           [231, 227] @
           js ''o bruta:'' @
           [10] @
           js ''                    '' @
           js ''first'' @ [10, 10] @ js ''=== SEGMENTO 2 ==='' @ [10] @ js ''second'' \<and>
         accumulatedPolishedNote s' = js ''# Weekly Sync'')"
proof -
  let ?r = "transcribedAs (js ''second'')"
  let ?s = "(newApp None 0)\<lparr>accumulatedTranscription := js ''first''\<rparr>"
  have h: "blob (hd exampleQueue) > 0" "decoded ?r = Some exampleBuffer" "base64Audio ?r \<noteq> []"
    "transcriptionReply ?r = Resolved (Some (js ''second''))" "js ''second'' \<noteq> []" "rawContentValid ?r"
    by (simp_all add: example_defs)
  have n: "openingTags (newApp None 0) = []" "closingTags (newApp None 0) = []"
    "effects (newApp None 0) = []"
    by (simp_all add: app_defs)
  have v: "segmentHeader (segmentNumber (hd exampleQueue)) @ addAudioTags (trim (js ''second'')) ?s
      = [10, 10] @ js ''=== SEGMENTO 2 ==='' @ [10] @ js ''second''"
    "segmentNumber (hd exampleQueue) = 2" "polishReply ?r = Resolved (Some (js ''# Weekly Sync''))"
    by (simp_all add: n addAudioTags_def example_defs segmentHeader_def showNat_digit trim_def
        isWhiteSpace_def)
  from transcribed_segment_is_refined[OF h, of ?s]
  obtain s' where s': "processAudioSegment ?r (hd exampleQueue) ?s = Inr s'"
    "accumulatedTranscription s' =
       accumulatedTranscription ?s @ segmentHeader (segmentNumber (hd exampleQueue)) @
         addAudioTags (trim (js ''second'')) ?s"
    "effects s' = effects ?s @ [TranscriptionRequested (segmentNumber (hd exampleQueue)),
                          PolishRequested (polishPrompt (accumulatedTranscription s'))]"
    "polishPrompt (accumulatedTranscription s') =
       polishPrompt [] @ accumulatedTranscription ?s @
         segmentHeader (segmentNumber (hd exampleQueue)) @ addAudioTags (trim (js ''second'')) ?s"
    "accumulatedPolishedNote s' =
             (case polishReply ?r of
                Resolved (Some polishedText) \<Rightarrow>
                  if polishedText = [] then accumulatedPolishedNote ?s else polishedText
              | _ \<Rightarrow> accumulatedPolishedNote ?s)"
    by blast
  have a: "accumulatedTranscription s' = js ''first'' @ [10, 10] @ js ''=== SEGMENTO 2 ==='' @ [10] @ js ''second''"
    unfolding s'(2) v(1) by simp
  have b: "effects s' = [TranscriptionRequested 2,
            PolishRequested
              (polishPrompt (js ''first'' @ [10, 10] @ js ''=== SEGMENTO 2 ==='' @ [10] @ js ''second''))]"
    unfolding s'(3) a v(2) by (simp add: n)
  have d: "polishPrompt (accumulatedTranscription s') =
           js ''Pegue nesta transcri'' @
           [231, 227] @
           js ''o bruta e crie uma nota bem formatada e melhorada.'' @
           [10] @
           js ''                    Remova palavras de preenchimento (hum, a'' @
           js ''h, tipo), repeti'' @
           [231, 245] @
           js ''es e falsos come'' @
           [231] @
           js ''os.'' @
           [10] @
           js ''                    Formate corretamente quaisquer listas ou'' @
           js '' marcadores. Use formata'' @
           [231, 227] @
           js ''o markdown para t'' @
           [237] @
           js ''tulos, listas, etc.'' @
           [10] @
           js ''                    Mantenha todo o conte'' @
           [250] @
           js ''do e significado original.'' @
           [10] @
           js ''                    Esta '' @
           [233] @
           js '' uma transcri'' @
           [231, 227] @
           js ''o de m'' @
           [250] @
           js ''ltiplos segmentos de uma reuni'' @
           [227] @
           js ''o cont'' @
           [237] @
           js ''nua.'' @
           [10, 10] @
           js ''                    Transcri'' @
           [231, 227] @
           js ''o bruta:'' @
           [10] @
           js ''                    '' @
           js ''first'' @ [10, 10] @ js ''=== SEGMENTO 2 ==='' @ [10] @ js ''second''"
    unfolding s'(4) v(1) by (simp add: polishPrompt_def)
  have c: "accumulatedPolishedNote s' = js ''# Weekly Sync''"
    unfolding s'(5) v(3) by simp
  show ?thesis
    using h s'(1) a b c d by blast
qed

section \<open>Where the code departs from the specification\<close>

text \<open>
  \<open>startContinuousRecording\<close> sets \<open>segmentCount\<close> to 1, the \<open>stop\<close> handler numbers a
  segment \<open>segmentCount + 1\<close>, and \<open>segmentCount\<close> moves only when a transcription
  succeeds (to the maximum of itself and the segment's number). Every enqueued segment
  gets the number that follows the counter at that moment.
\<close>

lemma onstop_numbers_segment:
  "enqueuedSegments (effects (onstop type now s)) = enqueuedSegments (effects s) \<or>
   (\<exists>segment. enqueuedSegments (effects (onstop type now s)) = enqueuedSegments (effects s) @ [segment] \<and>
      segmentNumber segment = segmentCount s + 1)"
proof -
  have a: "enqueuedSegments (es @ [SegmentEnqueued x, ProcessNextSegmentCalled]) = enqueuedSegments es @ [x]"
    for es x
    by (induction es rule: enqueuedSegments.induct) simp_all
  show ?thesis
    by (cases type) (simp_all add: onstop_def processNextSegment_begin_def Let_def a)
qed

text \<open>
  Claim C1, evaluated on the code. A session with no rotation (start, some audio, stop)
  enqueues one segment, and its number is 2, not 1. A session with one rotation that is
  stopped while the first segment is still being transcribed enqueues two segments, both
  numbered 2: the numbers do not increase. When the first segment has been transcribed
  before the stop, the numbers are 2 and 3.
\<close>

theorem segment_numbers_start_at_two:
  "map segmentNumber (enqueuedSegments (effects (run
      [RecordButtonClicked, StreamsAcquired None (MediaStream 1) 0,
       RecordButtonClicked, StopWaitOver, RecorderFlushed primary 100 5000]
      (newApp None 0)))) = [2] \<and>
   map segmentNumber (enqueuedSegments (effects (run
      [RecordButtonClicked, StreamsAcquired None (MediaStream 1) 0,
       SegmentTimerFired 120000, RecorderFlushed primary 100 120001,
       RecordButtonClicked, RecorderFlushed secondary 50 130000]
      (newApp None 0)))) = [2, 2] \<and>
   map segmentNumber (enqueuedSegments (effects (run
      [RecordButtonClicked, StreamsAcquired None (MediaStream 1) 0,
       SegmentTimerFired 120000, RecorderFlushed primary 100 120001,
       TranscriptionSettled \<lparr>blob = 100, startTime = 120000, endTime = 120001, segmentNumber = 2\<rparr>
         (transcribedAs (js ''hello'')),
       PolishSettled \<lparr>blob = 100, startTime = 120000, endTime = 120001, segmentNumber = 2\<rparr>
         (transcribedAs (js ''hello'')),
       RecordButtonClicked, StopWaitOver, RecorderFlushed secondary 50 130000]
      (newApp None 0)))) = [2, 3]"
  by (simp add: app_defs processing_defs example_defs)

text \<open>
  A consequence: \<open>getPolishedNote\<close> derives the title only when \<open>segmentCount\<close> is 1. In a
  session that is started and stopped with the record button the counter is already 2
  after the first transcription, so the refined note of the first segment, which starts
  with a heading, leaves the title element as it was. (The counter is 1 at a refinement
  only on another path: \<open>createNewNote\<close> sets it to 0, and a recorder it stops then
  enqueues a segment numbered 1.)
\<close>

lemma title_not_derived_in_session:
  "editorTitle (run
      [RecordButtonClicked, StreamsAcquired None (MediaStream 1) 0,
       RecordButtonClicked, StopWaitOver, RecorderFlushed primary 100 5000,
       TranscriptionSettled \<lparr>blob = 100, startTime = 0, endTime = 5000, segmentNumber = 2\<rparr>
         (transcribedAs (js ''hello'')),
       PolishSettled \<lparr>blob = 100, startTime = 0, endTime = 5000, segmentNumber = 2\<rparr>
         (transcribedAs (js ''hello''))]
      (newApp (Some exampleTitle) 0)) = Some exampleTitle \<and>
   accumulatedPolishedNote (run
      [RecordButtonClicked, StreamsAcquired None (MediaStream 1) 0,
       RecordButtonClicked, StopWaitOver, RecorderFlushed primary 100 5000,
       TranscriptionSettled \<lparr>blob = 100, startTime = 0, endTime = 5000, segmentNumber = 2\<rparr>
         (transcribedAs (js ''hello'')),
       PolishSettled \<lparr>blob = 100, startTime = 0, endTime = 5000, segmentNumber = 2\<rparr>
         (transcribedAs (js ''hello''))]
      (newApp (Some exampleTitle) 0)) = js ''# Weekly Sync'' \<and>
   segmentCount (run
      [RecordButtonClicked, StreamsAcquired None (MediaStream 1) 0,
       RecordButtonClicked, StopWaitOver, RecorderFlushed primary 100 5000,
       TranscriptionSettled \<lparr>blob = 100, startTime = 0, endTime = 5000, segmentNumber = 2\<rparr>
         (transcribedAs (js ''hello'')),
       PolishSettled \<lparr>blob = 100, startTime = 0, endTime = 5000, segmentNumber = 2\<rparr>
         (transcribedAs (js ''hello''))]
      (newApp (Some exampleTitle) 0)) = 2"
  by (simp add: app_defs processing_defs example_defs)

text \<open>
  Claim C2, evaluated on the code. A session is stopped: nothing is queued yet when
  \<open>finalizeContinuousRecording\<close> tests its loop condition, so the stop goes through, and the
  recorder's \<open>stop\<close> event then enqueues the segment and its processing begins. The user
  records again while that segment is still being transcribed. \<open>startContinuousRecording\<close>
  resets \<open>isProcessingSegment\<close>: the flag is false while a segment is in flight. The
  segment of the second session then passes the guard of \<open>processNextSegment\<close>, and two
  segments are in flight. When the first one ends, its \<open>finally\<close> block clears the flag
  while the second is still being processed.
\<close>

theorem two_segments_in_flight:
  "inFlight (run
      [RecordButtonClicked, StreamsAcquired None (MediaStream 1) 0,
       RecordButtonClicked, StopWaitOver, RecorderFlushed primary 100 5000,
       RecordButtonClicked]
      (newApp None 0)) =
     [(\<lparr>blob = 100, startTime = 0, endTime = 5000, segmentNumber = 2\<rparr>, Transcribing)] \<and>
   \<not> isProcessingSegment (run
      [RecordButtonClicked, StreamsAcquired None (MediaStream 1) 0,
       RecordButtonClicked, StopWaitOver, RecorderFlushed primary 100 5000,
       RecordButtonClicked]
      (newApp None 0)) \<and>
   inFlight (run
      [RecordButtonClicked, StreamsAcquired None (MediaStream 1) 0,
       RecordButtonClicked, StopWaitOver, RecorderFlushed primary 100 5000,
       RecordButtonClicked, StreamsAcquired None (MediaStream 1) 6000,
       RecordButtonClicked, StopWaitOver, RecorderFlushed primary 70 9000]
      (newApp None 0)) =
     [(\<lparr>blob = 100, startTime = 0, endTime = 5000, segmentNumber = 2\<rparr>, Transcribing),
      (\<lparr>blob = 70, startTime = 6000, endTime = 9000, segmentNumber = 2\<rparr>, Transcribing)] \<and>
   \<not> isProcessingSegment (run
      [RecordButtonClicked, StreamsAcquired None (MediaStream 1) 0,
       RecordButtonClicked, StopWaitOver, RecorderFlushed primary 100 5000,
       RecordButtonClicked, StreamsAcquired None (MediaStream 1) 6000,
       RecordButtonClicked, StopWaitOver, RecorderFlushed primary 70 9000,
       TranscriptionSettled \<lparr>blob = 100, startTime = 0, endTime = 5000, segmentNumber = 2\<rparr>
         transcriptionFails]
      (newApp None 0)) \<and>
   inFlight (run
      [RecordButtonClicked, StreamsAcquired None (MediaStream 1) 0,
       RecordButtonClicked, StopWaitOver, RecorderFlushed primary 100 5000,
       RecordButtonClicked, StreamsAcquired None (MediaStream 1) 6000,
       RecordButtonClicked, StopWaitOver, RecorderFlushed primary 70 9000,
       TranscriptionSettled \<lparr>blob = 100, startTime = 0, endTime = 5000, segmentNumber = 2\<rparr>
         transcriptionFails]
      (newApp None 0)) =
     [(\<lparr>blob = 70, startTime = 6000, endTime = 9000, segmentNumber = 2\<rparr>, Transcribing)]"
  by (simp add: app_defs processing_defs example_defs)
end
